theory Spec2Isabelle
  imports Complex_Main "HOL-Library.Multiset"
begin

section \<open>Fast-Higashi contact extraction: \<open>fasthigashi/Fast_process.py\<close>\<close>

text \<open>
  The development embeds \<open>data2mtx\<close>, \<open>remove_blacklist\<close> and \<open>extract_table\<close>.
  Conventions of the embedding:
  \<^item> a pandas integer column is a list of mathematical integers and \<open>np.floor(pos / res)\<close>
    is floor division; int64 wrap-around and the rounding of float64 and float32 are outside
    the model (they agree with it for magnitudes below \<open>2^53\<close> and exact sums);
  \<^item> every Python exception is a value of \<open>pyerror\<close>, and a function that can raise
    returns \<open>pyerror + 'a\<close>;
  \<^item> what the code reads from disk or obtains from pandas, pybedtools and the process pool
    is a field of the record \<open>world\<close>.
\<close>

subsection \<open>Data model\<close>

datatype pyerror = KeyError | ValueError | IndexError | EOFError

text \<open>One row of a contact table. \<open>count_v\<close> is the column \<open>count\<close>.\<close>

record contact =
  cell_id :: int
  chrom1 :: string
  pos1 :: int
  chrom2 :: string
  pos2 :: int
  count_v :: real

text \<open>
  A DataFrame of contacts. \<open>has_count\<close> says whether the column \<open>count\<close> exists; when
  it does not, the field \<open>count_v\<close> of the rows is never read.
\<close>

record frame =
  has_count :: bool
  rows :: "contact list"

text \<open>The keys of the configuration that the extraction reads; a key tested with
  \<open>in config\<close> is optional.\<close>

record config =
  data_dir :: string
  temp_dir :: string
  chrom_list :: "string list"
  resolution :: int
  blacklist :: "string option"
  input_format :: "string option"
  structured :: "bool option"

text \<open>
  A scipy sparse matrix in canonical form is determined by its shape and its coefficients;
  \<open>coeff m i j\<close> is the entry at row \<open>i\<close> and column \<open>j\<close>.
\<close>

record csr =
  nrows :: nat
  ncols :: nat
  coeff :: "nat \<Rightarrow> nat \<Rightarrow> real"

text \<open>The second argument of \<open>data2mtx\<close>: a path (file-list layout) or a DataFrame.\<close>

datatype file_arg = Path string | Table frame

text \<open>What a future of the pool holds once it is done: the exception the task raised, or
  the pair \<open>(m1_list, cell_id)\<close> it returned.\<close>

type_synonym future = "pyerror + (csr list \<times> int)"

text \<open>
  \<^item> \<open>data_txt\<close>: the table \<open>pd.read_table\<close> parses from \<open>data_dir/data.txt\<close>;
  \<^item> \<open>filelist_txt\<close>: the stripped lines of \<open>data_dir/filelist.txt\<close>;
  \<^item> \<open>contact_file p\<close>: the table lines 118-126 read from the per-cell file \<open>p\<close>
    (parsing and the naming of the columns included);
  \<^item> \<open>chrom_start_end_npy\<close>: the rows of \<open>temp_dir/chrom_start_end.npy\<close>;
  \<^item> \<open>bed_survives b (c, s, e)\<close>: whether \<open>bedtools subtract\<close> against the blacklist file
    \<open>b\<close> leaves a piece of the feature \<open>(c, s, e)\<close>;
  \<^item> \<open>as_completed\<close>: the order in which the pool hands back the futures.
\<close>

record world =
  data_txt :: frame
  filelist_txt :: "string list"
  contact_file :: "string \<Rightarrow> frame"
  chrom_start_end_npy :: "(int \<times> int) list"
  bed_survives :: "string \<Rightarrow> string \<times> int \<times> int \<Rightarrow> bool"
  as_completed :: "future list \<Rightarrow> future list"

subsection \<open>Sparse matrices\<close>

text \<open>
  \<open>csr_matrix((data, (row, col)), shape=(size, size))\<close>: a negative dimension and an index
  outside the shape raise \<open>ValueError\<close>; entries with the same indices are summed.
  A triple is \<open>(value, row, column)\<close>.
\<close>

definition csr_matrix :: "(real \<times> int \<times> int) list \<Rightarrow> int \<Rightarrow> pyerror + csr" where
  "csr_matrix ts size' =
     (if size' < 0 then Inl ValueError
      else if list_ex (\<lambda>(v, r, c). r < 0 \<or> size' \<le> r \<or> c < 0 \<or> size' \<le> c) ts
        then Inl ValueError
      else Inr \<lparr>nrows = nat size', ncols = nat size',
                coeff = (\<lambda>i j. sum_list (map fst
                           (filter (\<lambda>(v, r, c). r = int i \<and> c = int j) ts)))\<rparr>)"

text \<open>\<open>m.T\<close>\<close>

definition transpose_csr :: "csr \<Rightarrow> csr" where
  "transpose_csr m = \<lparr>nrows = ncols m, ncols = nrows m, coeff = (\<lambda>i j. coeff m j i)\<rparr>"

text \<open>\<open>a + b\<close> on sparse matrices: shapes that differ raise \<open>ValueError\<close>.\<close>

definition csr_add :: "csr \<Rightarrow> csr \<Rightarrow> pyerror + csr" where
  "csr_add a b =
     (if nrows a = nrows b \<and> ncols a = ncols b
      then Inr \<lparr>nrows = nrows a, ncols = ncols a, coeff = (\<lambda>i j. coeff a i j + coeff b i j)\<rparr>
      else Inl ValueError)"

definition symmetric :: "csr \<Rightarrow> bool" where
  "symmetric m \<longleftrightarrow> nrows m = ncols m \<and> (\<forall>i j. coeff m i j = coeff m j i)"

definition all_zero :: "csr \<Rightarrow> bool" where
  "all_zero m \<longleftrightarrow> (\<forall>i j. coeff m i j = 0)"

subsection \<open>\<open>remove_blacklist\<close>\<close>

text \<open>A BED feature with a name: \<open>(chrom, start, end, name)\<close>.\<close>

type_synonym anchor = "string \<times> int \<times> int \<times> nat"

text \<open>\<open>bed_anchor.subtract(blacklist).to_dataframe()\<close>, for the survival test \<open>sv\<close>
  of the blacklist: the features of which the subtraction leaves a piece, with their names.
  pybedtools is outside the source; the table it returns is taken to have the column
  \<open>name\<close> also when no feature survives.\<close>

definition subtract :: "(string \<times> int \<times> int \<Rightarrow> bool) \<Rightarrow> anchor list \<Rightarrow> anchor list" where
  "subtract sv as = filter (\<lambda>(c, s, e, n). sv (c, s, e)) as"

text \<open>\<open>np.intersect1d\<close>: the sorted values that occur in both arrays, each once.\<close>

definition intersect1d :: "nat list \<Rightarrow> nat list \<Rightarrow> nat list" where
  "intersect1d xs ys = sort (remdups (filter (\<lambda>x. x \<in> set ys) xs))"

text \<open>\<open>df.iloc[idx, :]\<close>: the rows at the positions \<open>idx\<close>, in that order; a position
  outside the table raises \<open>IndexError\<close>.\<close>

fun iloc :: "'a list \<Rightarrow> nat list \<Rightarrow> pyerror + 'a list" where
  "iloc df [] = Inr []"
| "iloc df (i # idx) =
     (if i < length df
      then (case iloc df idx of Inl e \<Rightarrow> Inl e | Inr rs \<Rightarrow> Inr (df ! i # rs))
      else Inl IndexError)"

definition remove_blacklist ::
  "(string \<times> int \<times> int \<Rightarrow> bool) \<Rightarrow> contact list \<Rightarrow> pyerror + contact list" where
  "remove_blacklist sv chromdf =
     (let left = map (\<lambda>(i, r). (chrom1 r, pos1 r, pos1 r, i)) (enumerate 0 chromdf);
          right = map (\<lambda>(i, r). (chrom2 r, pos2 r, pos2 r, i)) (enumerate 0 chromdf);
          good_anchor_left = subtract sv left;
          good_anchor_right = subtract sv right;
          good_index = intersect1d (map (\<lambda>(c, s, e, n). n) good_anchor_left)
                                   (map (\<lambda>(c, s, e, n). n) good_anchor_right)
      in iloc chromdf good_index)"

subsection \<open>\<open>data2mtx\<close>\<close>

text \<open>Lines 117-130: a path is read and gets the column \<open>count\<close> with value 1 when it
  has none; a DataFrame is taken as it is.\<close>

definition load_tab :: "world \<Rightarrow> file_arg \<Rightarrow> frame" where
  "load_tab w file =
     (case file of
        Path p \<Rightarrow>
          (let tab = contact_file w p
           in if has_count tab then tab
              else \<lparr>has_count = True, rows = map (\<lambda>r. r\<lparr>count_v := 1\<rparr>) (rows tab)\<rparr>)
      | Table tab \<Rightarrow> tab)"

text \<open>The mask of line 137.\<close>

definition keep_contact :: "contact \<Rightarrow> bool" where
  "keep_contact r \<longleftrightarrow>
     chrom1 r = chrom2 r \<and> (\<bar>pos2 r - pos1 r\<bar> \<ge> 2500 \<or> \<bar>pos2 r - pos1 r\<bar> = 0)"

text \<open>
  Lines 152-163. The arrays \<open>chrom1\<close>, \<open>bin1\<close>, \<open>bin2\<close> and \<open>count\<close> are indexed by the same
  mask throughout, so they are one list of tuples \<open>(chrom1, bin1, bin2, count)\<close>.
  \<open>i\<close> is the index of \<open>enumerate\<close>; a row \<open>i\<close> that \<open>chrom_start_end\<close> does not have
  raises \<open>IndexError\<close>.
\<close>

fun build_m1_list ::
  "string list \<Rightarrow> (int \<times> int) list \<Rightarrow> nat \<Rightarrow> (string \<times> int \<times> int \<times> real) list
     \<Rightarrow> pyerror + csr list" where
  "build_m1_list [] cse i es = Inr []"
| "build_m1_list (chrom # rest) cse i es =
     (if length cse \<le> i then Inl IndexError
      else
        let size' = snd (cse ! i) - fst (cse ! i);
            masked = filter (\<lambda>(c, b1, b2, v). c = chrom) es
        in case csr_matrix (map (\<lambda>(c, b1, b2, v). (v, b1, b2)) masked) size' of
             Inl e \<Rightarrow> Inl e
           | Inr m1 \<Rightarrow>
               (case csr_add m1 (transpose_csr m1) of
                  Inl e \<Rightarrow> Inl e
                | Inr m1' \<Rightarrow>
                    (case build_m1_list rest cse (Suc i)
                            (filter (\<lambda>(c, b1, b2, v). c \<noteq> chrom) es) of
                       Inl e \<Rightarrow> Inl e
                     | Inr m1_list \<Rightarrow> Inr (m1' # m1_list))))"

text \<open>Lines 142-148: the bins and the arrays the loop works on. For a resolution of 0
  numpy divides to \<open>inf\<close> and \<open>nan\<close>, whose cast to an integer is not a bin: statements about
  the bins are made for a resolution other than 0.\<close>

definition binned :: "int \<Rightarrow> contact list \<Rightarrow> (string \<times> int \<times> int \<times> real) list" where
  "binned res data = map (\<lambda>r. (chrom1 r, pos1 r div res, pos2 r div res, count_v r)) data"

text \<open>
  \<open>data2mtx(config, file, chrom_start_end, verbose, cell_id, blacklist)\<close>; \<open>verbose\<close> is
  not used by the code. \<open>data['count']\<close> raises \<open>KeyError\<close> on a table without that column.
\<close>

definition data2mtx ::
  "config \<Rightarrow> world \<Rightarrow> file_arg \<Rightarrow> (int \<times> int) list \<Rightarrow> int \<Rightarrow> string
     \<Rightarrow> pyerror + (csr list \<times> int)" where
  "data2mtx cfg w file cse cid bl =
     (let tab = load_tab w file;
          data = filter keep_contact (rows tab)
      in case (if bl \<noteq> [] \<and> 0 < length data
               then remove_blacklist (bed_survives w bl) data else Inr data) of
           Inl e \<Rightarrow> Inl e
         | Inr data \<Rightarrow>
             if \<not> has_count tab then Inl KeyError
             else (case build_m1_list (chrom_list cfg) cse 0 (binned (resolution cfg) data) of
                     Inl e \<Rightarrow> Inl e
                   | Inr m1_list \<Rightarrow> Inr (m1_list, cid)))"

subsection \<open>\<open>extract_table\<close>\<close>

text \<open>An element of \<open>mtx_all_list[i]\<close>: the integer \<open>0\<close> the list is created with, or a
  matrix a task returned.\<close>

datatype slot = PyInt0 | Mtx csr

text \<open>What a call of \<open>extract_table\<close> leaves behind: the futures it submitted to the pool,
  and either the exception that ended it or the files it wrote with \<open>np.save\<close>, in the
  order of writing. A file is its path components and the list saved in it.\<close>

record run =
  p_list :: "future list"
  outcome :: "pyerror + (string list \<times> slot list) list"

text \<open>\<open>np.unique\<close>: the sorted distinct values.\<close>

definition np_unique :: "int list \<Rightarrow> int list" where
  "np_unique xs = sort (remdups xs)"

text \<open>\<open>np.max\<close>: \<open>ValueError\<close> on an empty array.\<close>

definition np_max :: "int list \<Rightarrow> pyerror + int" where
  "np_max xs = (case xs of [] \<Rightarrow> Inl ValueError | x # xs' \<Rightarrow> Inr (fold max xs' x))"

text \<open>\<open>xs[i] = v\<close> on a Python list: a negative index counts from the end, an index
  outside the list raises \<open>IndexError\<close>.\<close>

definition list_set :: "'a list \<Rightarrow> int \<Rightarrow> 'a \<Rightarrow> pyerror + 'a list" where
  "list_set xs i v =
     (let n = int (length xs); j = (if i < 0 then n + i else i)
      in if 0 \<le> j \<and> j < n then Inr (xs[nat j := v]) else Inl IndexError)"

text \<open>\<open>for i in range(len(chrom_list)): mtx_all_list[i][cell_id] = mtx_list[i]\<close>, the first
  argument being the values of \<open>i\<close> still to come.\<close>

fun place :: "nat list \<Rightarrow> csr list \<Rightarrow> int \<Rightarrow> slot list list \<Rightarrow> pyerror + slot list list" where
  "place [] mtx_list cid mtx_all_list = Inr mtx_all_list"
| "place (i # is) mtx_list cid mtx_all_list =
     (if length mtx_list \<le> i \<or> length mtx_all_list \<le> i then Inl IndexError
      else (case list_set (mtx_all_list ! i) cid (Mtx (mtx_list ! i)) of
              Inl e \<Rightarrow> Inl e
            | Inr row \<Rightarrow> place is mtx_list cid (mtx_all_list[i := row])))"

text \<open>\<open>for p in as_completed(p_list): mtx_list, cell_id = p.result(); ...\<close>, on the futures
  in their order of completion; \<open>p.result()\<close> raises what the task raised. \<open>n\<close> is
  \<open>len(chrom_list)\<close>.\<close>

fun aggregate :: "nat \<Rightarrow> future list \<Rightarrow> slot list list \<Rightarrow> pyerror + slot list list" where
  "aggregate n [] mtx_all_list = Inr mtx_all_list"
| "aggregate n (p # ps) mtx_all_list =
     (case p of
        Inl e \<Rightarrow> Inl e
      | Inr (mtx_list, cid) \<Rightarrow>
          (case place [0..<n] mtx_list cid mtx_all_list of
             Inl e \<Rightarrow> Inl e
           | Inr mtx_all_list' \<Rightarrow> aggregate n ps mtx_all_list'))"

text \<open>\<open>[[0] * cell_num for i in range(len(chrom_list))]\<close>; a negative \<open>cell_num\<close> gives
  empty lists.\<close>

definition init_mtx_all_list :: "config \<Rightarrow> int \<Rightarrow> slot list list" where
  "init_mtx_all_list cfg cell_num =
     replicate (length (chrom_list cfg)) (replicate (nat cell_num) PyInt0)"

text \<open>\<open>data[data['cell_id'] == cell_id]\<close>\<close>

definition rows_of_cell :: "frame \<Rightarrow> int \<Rightarrow> frame" where
  "rows_of_cell data cid = data\<lparr>rows := filter (\<lambda>r. cell_id r = cid) (rows data)\<rparr>"

text \<open>The whole-table layout, lines 243-258 and, with the same statements, lines 264-279.
  The result is the submitted futures and the filled \<open>mtx_all_list\<close>.\<close>

definition whole_table ::
  "config \<Rightarrow> world \<Rightarrow> string \<Rightarrow> future list \<times> (pyerror + slot list list)" where
  "whole_table cfg w bl =
     (let data = data_txt w;
          cell_id_all = np_unique (map cell_id (rows data))
      in case np_max cell_id_all of
           Inl e \<Rightarrow> ([], Inl e)
         | Inr mx \<Rightarrow>
             (let cell_num = mx + 1;
                  mtx_all_list = init_mtx_all_list cfg cell_num;
                  ps = map (\<lambda>cid. data2mtx cfg w (Table (rows_of_cell data cid))
                                     (chrom_start_end_npy w) cid bl)
                           (map int [0..<nat cell_num])
              in (ps, aggregate (length (chrom_list cfg)) (as_completed w ps) mtx_all_list)))"

text \<open>
  The iteration of \<open>pd.read_csv(csv_file, chunksize=chunksize)\<close>: the rows in pieces of
  \<open>chunksize\<close> rows, the last one shorter; a table without rows comes as one empty chunk.
\<close>

function chunks_of :: "nat \<Rightarrow> 'a list \<Rightarrow> 'a list list" where
  "chunks_of n xs = (if n = 0 \<or> xs = [] then [] else take n xs # chunks_of n (drop n xs))"
  by pat_completeness auto
termination
  by (relation "measure (\<lambda>(n, xs). length xs)") auto

declare chunks_of.simps [simp del]

definition reader :: "nat \<Rightarrow> 'a list \<Rightarrow> 'a list list" where
  "reader chunksize xs = (if xs = [] then [[]] else chunks_of chunksize xs)"

text \<open>Lines 215-219 and 228-232: one task for every cell id of the pending table, in
  increasing order. The state is \<open>(p_list, cell_num)\<close>; \<open>hc\<close> says whether the table has
  the column \<open>count\<close>.\<close>

definition submit_cells ::
  "config \<Rightarrow> world \<Rightarrow> string \<Rightarrow> bool \<Rightarrow> contact list \<Rightarrow> future list \<times> int
     \<Rightarrow> future list \<times> int" where
  "submit_cells cfg w bl hc cell_tab st =
     fold (\<lambda>cid (ps, cell_num).
             (ps @ [data2mtx cfg w (Table \<lparr>has_count = hc,
                                            rows = filter (\<lambda>r. cell_id r = cid) cell_tab\<rparr>)
                      (chrom_start_end_npy w) cid bl],
              max cell_num (cid + 1)))
          (np_unique (map cell_id cell_tab)) st"

text \<open>Lines 204-223: the loop over the chunks; the state is \<open>(cell_tab, p_list, cell_num)\<close>.
  \<open>np.array(chunk.tail(1)['cell_id'])[0]\<close> raises \<open>IndexError\<close> on a chunk without rows.\<close>

fun read_chunks ::
  "config \<Rightarrow> world \<Rightarrow> string \<Rightarrow> bool \<Rightarrow> contact list list
     \<Rightarrow> contact list list \<times> future list \<times> int
     \<Rightarrow> pyerror + contact list list \<times> future list \<times> int" where
  "read_chunks cfg w bl hc [] st = Inr st"
| "read_chunks cfg w bl hc (chunk # chunks) (cell_tab, ps, cell_num) =
     (if length (remdups (map cell_id chunk)) = 1
      then read_chunks cfg w bl hc chunks (cell_tab @ [chunk], ps, cell_num)
      else if chunk = [] then Inl IndexError
      else
        let last_cell = cell_id (last chunk);
            tails = filter (\<lambda>r. cell_id r \<noteq> last_cell) chunk;
            head = filter (\<lambda>r. cell_id r = last_cell) chunk;
            (ps', cell_num') = submit_cells cfg w bl hc (concat (cell_tab @ [tails])) (ps, cell_num)
        in read_chunks cfg w bl hc chunks ([head], ps', cell_num'))"

text \<open>The chunked-streaming layout, lines 191-240, for a chunk size.\<close>

definition chunked ::
  "nat \<Rightarrow> config \<Rightarrow> world \<Rightarrow> string \<Rightarrow> future list \<times> (pyerror + slot list list)" where
  "chunked chunksize cfg w bl =
     (let hc = has_count (data_txt w)
      in case read_chunks cfg w bl hc (reader chunksize (rows (data_txt w))) ([], [], 0) of
           Inl e \<Rightarrow> ([], Inl e)
         | Inr (cell_tab, ps, cell_num) \<Rightarrow>
             (let (ps', cell_num') =
                    (if length cell_tab \<noteq> 0
                     then submit_cells cfg w bl hc (concat cell_tab) (ps, cell_num)
                     else (ps, cell_num));
                  mtx_all_list = init_mtx_all_list cfg cell_num'
              in (ps', aggregate (length (chrom_list cfg)) (as_completed w ps') mtx_all_list)))"

text \<open>The file-list layout, lines 288-301.\<close>

definition file_list ::
  "config \<Rightarrow> world \<Rightarrow> string \<Rightarrow> future list \<times> (pyerror + slot list list)" where
  "file_list cfg w bl =
     (let filelist = filelist_txt w;
          mtx_all_list = init_mtx_all_list cfg (int (length filelist));
          ps = map (\<lambda>(cid, file). data2mtx cfg w (Path file) (chrom_start_end_npy w) (int cid) bl)
                   (enumerate 0 filelist)
      in (ps, aggregate (length (chrom_list cfg)) (as_completed w ps) mtx_all_list))"

text \<open>Lines 283-285 and 306-308: one file per chromosome, written once the loop over the
  futures has ended without an exception.\<close>

definition save_all ::
  "config \<Rightarrow> future list \<times> (pyerror + slot list list) \<Rightarrow> run" where
  "save_all cfg r =
     \<lparr>p_list = fst r,
      outcome = (case snd r of
                   Inl e \<Rightarrow> Inl e
                 | Inr mtx_all_list \<Rightarrow>
                     Inr (map (\<lambda>i. ([temp_dir cfg, ''raw'', chrom_list cfg ! i @ ''_sparse_adj.npy''],
                                     mtx_all_list ! i))
                              [0..<length (chrom_list cfg)]))\<rparr>"

definition chunksize :: nat where
  "chunksize = 5000000"

definition extract_table :: "config \<Rightarrow> world \<Rightarrow> run" where
  "extract_table cfg w =
     (let bl = (case blacklist cfg of Some b \<Rightarrow> b | None \<Rightarrow> []);
          fmt = (case input_format cfg of Some f \<Rightarrow> f | None \<Rightarrow> ''higashi_v1'')
      in if fmt = ''higashi_v1'' then
           (case structured cfg of
              Some s \<Rightarrow>
                if s then save_all cfg (chunked chunksize cfg w bl)
                else save_all cfg (whole_table cfg w bl)
            | None \<Rightarrow> save_all cfg (whole_table cfg w bl))
         else if fmt = ''higashi_v2'' then save_all cfg (file_list cfg w bl)
         else \<lparr>p_list = [], outcome = Inl EOFError\<rparr>)"

section \<open>Notions the statements use\<close>

text \<open>A row passes the blacklist when both of its anchors, as the point features
  \<open>(chrom1, pos1, pos1)\<close> and \<open>(chrom2, pos2, pos2)\<close>, survive the subtraction.\<close>

definition anchors_survive :: "(string \<times> int \<times> int \<Rightarrow> bool) \<Rightarrow> contact \<Rightarrow> bool" where
  "anchors_survive sv r \<longleftrightarrow> sv (chrom1 r, pos1 r, pos1 r) \<and> sv (chrom2 r, pos2 r, pos2 r)"

text \<open>The rows \<open>data2mtx\<close> builds its matrices from: the value of \<open>data\<close> after line 140.\<close>

definition surviving :: "world \<Rightarrow> file_arg \<Rightarrow> string \<Rightarrow> contact list" where
  "surviving w file bl =
     (let data = filter keep_contact (rows (load_tab w file))
      in if bl \<noteq> [] \<and> data \<noteq> [] then filter (anchors_survive (bed_survives w bl)) data else data)"

text \<open>The sum of the counts of the rows of \<open>data\<close> on chromosome \<open>chrom\<close> whose bins are
  \<open>(i, j)\<close>, with \<open>bin = floor(pos / res)\<close>.\<close>

definition accumulated :: "int \<Rightarrow> contact list \<Rightarrow> string \<Rightarrow> nat \<Rightarrow> nat \<Rightarrow> real" where
  "accumulated res data chrom i j =
     sum_list (map count_v (filter (\<lambda>r. chrom1 r = chrom \<and> pos1 r div res = int i \<and> pos2 r div res = int j) data))"

text \<open>The same sum on the tuples of the loop of \<open>data2mtx\<close>.\<close>

definition acc :: "(string \<times> int \<times> int \<times> real) list \<Rightarrow> string \<Rightarrow> nat \<Rightarrow> nat \<Rightarrow> real" where
  "acc es chrom a b = sum_list (map (\<lambda>(c, b1, b2, v). v)
      (filter (\<lambda>(c, b1, b2, v). c = chrom \<and> b1 = int a \<and> b2 = int b) es))"

text \<open>All rows of a cell id are next to each other in the table: once the run of an id
  has ended, the id does not come again.\<close>

fun contiguous_ids :: "int list \<Rightarrow> bool" where
  "contiguous_ids [] = True"
| "contiguous_ids (x # xs) = (x \<notin> set (dropWhile (\<lambda>y. y = x) xs) \<and> contiguous_ids xs)"

definition contiguous :: "contact list \<Rightarrow> bool" where
  "contiguous tab \<longleftrightarrow> contiguous_ids (map cell_id tab)"

definition is_matrix :: "slot \<Rightarrow> bool" where
  "is_matrix s = (case s of PyInt0 \<Rightarrow> False | Mtx m \<Rightarrow> True)"

text \<open>The task the whole-table layout submits for a cell id, and the \<open>mtx_all_list\<close> in
  which the slot of every cell id below \<open>cell_num\<close> holds the matrix that task returned.\<close>

definition cell_task :: "config \<Rightarrow> world \<Rightarrow> string \<Rightarrow> int \<Rightarrow> future" where
  "cell_task cfg w bl c =
     data2mtx cfg w (Table (rows_of_cell (data_txt w) c)) (chrom_start_end_npy w) c bl"

definition filled :: "config \<Rightarrow> world \<Rightarrow> string \<Rightarrow> int \<Rightarrow> slot list list" where
  "filled cfg w bl cell_num =
     map (\<lambda>i. map (\<lambda>c. Mtx (fst (projr (cell_task cfg w bl (int c))) ! i)) [0..<nat cell_num])
         [0..<length (chrom_list cfg)]"

text \<open>The values the futures of a list hold.\<close>

definition results_of :: "future list \<Rightarrow> (csr list \<times> int) list" where
  "results_of qs = map projr qs"

text \<open>The effect of one pass of the inner loop of the aggregation for a cell id that is not
  negative: when it can run, and the \<open>mtx_all_list\<close> it leaves.\<close>

definition can_place :: "nat \<Rightarrow> csr list \<Rightarrow> int \<Rightarrow> slot list list \<Rightarrow> bool" where
  "can_place n ml c g \<longleftrightarrow> n \<le> length ml \<and> n \<le> length g \<and> (\<forall>i<n. nat c < length (g ! i))"

definition placed :: "nat \<Rightarrow> csr list \<Rightarrow> int \<Rightarrow> slot list list \<Rightarrow> slot list list" where
  "placed n ml c g = map (\<lambda>i. if i < n then (g ! i)[nat c := Mtx (ml ! i)] else g ! i) [0..<length g]"

text \<open>One iteration of the loop over the completed futures, on the state of the loop
  (the exception raised so far, or \<open>mtx_all_list\<close>).\<close>

definition agg_step :: "nat \<Rightarrow> future \<Rightarrow> pyerror + slot list list \<Rightarrow> pyerror + slot list list" where
  "agg_step n p st =
     (case st of Inl e \<Rightarrow> Inl e
      | Inr g \<Rightarrow> (case p of Inl e \<Rightarrow> Inl e | Inr (ml, c) \<Rightarrow> place [0..<n] ml c g))"

subsection \<open>Inputs for the examples\<close>

text \<open>Two chromosomes of 10 and 5 bins at resolution 1000; the pool hands the futures back in
  the order of submission; no blacklist.\<close>

definition ex_cfg :: config where
  "ex_cfg = \<lparr>data_dir = ''data'', temp_dir = ''tmp'', chrom_list = [''chr1'', ''chr2''],
     resolution = 1000, blacklist = None, input_format = None, structured = None\<rparr>"

definition ex_row :: "int \<Rightarrow> string \<Rightarrow> int \<Rightarrow> int \<Rightarrow> real \<Rightarrow> contact" where
  "ex_row cid c p1 p2 v =
     \<lparr>cell_id = cid, chrom1 = c, pos1 = p1, chrom2 = c, pos2 = p2, count_v = v\<rparr>"

definition ex_world :: "frame \<Rightarrow> world" where
  "ex_world tab =
     \<lparr>data_txt = tab, filelist_txt = [''cell0.txt''], contact_file = (\<lambda>p. tab),
      chrom_start_end_npy = [(0, 10), (10, 15)],
      bed_survives = (\<lambda>b (c, s, e). True), as_completed = (\<lambda>ps. ps)\<rparr>"

text \<open>One cell with the contact of the example of the specification (bins 0 and 3, count 2)
  and a self-contact in bin 0 with count 5.\<close>

definition ex_tab :: frame where
  "ex_tab = \<lparr>has_count = True,
              rows = [ex_row 0 ''chr1'' 500 3600 2, ex_row 0 ''chr1'' 500 500 5]\<rparr>"

text \<open>Cells 0 and 2 with one contact each; cell 1 has no row.\<close>

definition gap_tab :: frame where
  "gap_tab = \<lparr>has_count = True,
               rows = [ex_row 0 ''chr1'' 500 3600 2, ex_row 2 ''chr1'' 500 3600 2]\<rparr>"


definition ex_m :: "real \<Rightarrow> csr" where
  "ex_m v = \<lparr>nrows = 1, ncols = 1, coeff = (\<lambda>i j. if i = 0 \<and> j = 0 then v else 0)\<rparr>"

lemmas ex_defs = ex_cfg_def ex_row_def ex_world_def ex_tab_def

section \<open>The matrix builder\<close>

lemma csr_matrix_Inr:
  assumes "csr_matrix ts n = Inr m"
  shows "0 \<le> n" "nrows m = nat n" "ncols m = nat n"
    "coeff m i j = sum_list (map fst (filter (\<lambda>(v, r, c). r = int i \<and> c = int j) ts))"
  using assms by (auto simp: csr_matrix_def split: if_splits)

lemma csr_matrix_ok:
  assumes "0 \<le> n" "\<forall>(v, r, c)\<in>set ts. 0 \<le> r \<and> r < n \<and> 0 \<le> c \<and> c < n"
  shows "\<exists>m. csr_matrix ts n = Inr m"
  using assms by (auto simp: csr_matrix_def list_ex_iff)

lemma csr_add_transpose:
  assumes "nrows m = ncols m"
  shows "csr_add m (transpose_csr m) =
     Inr \<lparr>nrows = nrows m, ncols = nrows m, coeff = (\<lambda>i j. coeff m i j + coeff m j i)\<rparr>"
  using assms by (simp add: csr_add_def transpose_csr_def)

lemma sum_masked:
  "sum_list (map fst (filter (\<lambda>(v, r, c). r = int a \<and> c = int b)
       (map (\<lambda>(c, b1, b2, v). (v, b1, b2)) (filter (\<lambda>(c, b1, b2, v). c = chrom) es))))
   = acc es chrom a b"
  unfolding acc_def by (induction es) auto

lemma acc_filter_other:
  "acc (filter (\<lambda>(c, b1, b2, v). c \<noteq> chrom) es) c' a b = (if c' = chrom then 0 else acc es c' a b)"
  unfolding acc_def by (induction es) auto

lemma acc_binned: "acc (binned res data) chrom a b = accumulated res data chrom a b"
  unfolding acc_def accumulated_def binned_def by (induction data) auto

lemma build_Cons_Inr:
  assumes "build_m1_list (chrom # rest) cse i es = Inr ms"
  obtains m1 ms' where "i < length cse"
    "csr_matrix (map (\<lambda>(c, b1, b2, v). (v, b1, b2)) (filter (\<lambda>(c, b1, b2, v). c = chrom) es))
        (snd (cse ! i) - fst (cse ! i)) = Inr m1"
    "build_m1_list rest cse (Suc i) (filter (\<lambda>(c, b1, b2, v). c \<noteq> chrom) es) = Inr ms'"
    "ms = \<lparr>nrows = nrows m1, ncols = nrows m1, coeff = (\<lambda>i j. coeff m1 i j + coeff m1 j i)\<rparr> # ms'"
proof -
  from assms have il: "i < length cse" by (auto split: if_splits)
  from assms il obtain m1 where m1: "csr_matrix (map (\<lambda>(c, b1, b2, v). (v, b1, b2)) (filter (\<lambda>(c, b1, b2, v). c = chrom) es))
        (snd (cse ! i) - fst (cse ! i)) = Inr m1"
    by (auto simp: Let_def split: sum.splits)
  have sq: "nrows m1 = ncols m1" using csr_matrix_Inr(2,3)[OF m1] by simp
  from assms il m1 obtain ms' where "build_m1_list rest cse (Suc i) (filter (\<lambda>(c, b1, b2, v). c \<noteq> chrom) es) = Inr ms'"
     "ms = \<lparr>nrows = nrows m1, ncols = nrows m1, coeff = (\<lambda>i j. coeff m1 i j + coeff m1 j i)\<rparr> # ms'"
    by (auto simp: Let_def csr_add_transpose[OF sq] split: sum.splits)
  with il m1 that show thesis by blast
qed

lemma build_length:
  "build_m1_list chroms cse i es = Inr ms \<Longrightarrow> length ms = length chroms"
proof (induction chroms arbitrary: i es ms)
  case Nil then show ?case by simp
next
  case (Cons chrom rest)
  from Cons.prems show ?case
    by (rule build_Cons_Inr) (use Cons.IH in auto)
qed

text \<open>The matrix of position \<open>k\<close>: its shape is the window of row \<open>i + k\<close> of
  \<open>chrom_start_end\<close>, and it is \<open>M + M\<^sup>T\<close> of the accumulated counts, unless an
  earlier position of the list has the same name and has taken the rows away.\<close>

lemma build_entry:
  assumes "build_m1_list chroms cse i es = Inr ms" "k < length chroms"
  shows "i + k < length cse \<and> fst (cse ! (i + k)) \<le> snd (cse ! (i + k))
     \<and> nrows (ms ! k) = nat (snd (cse ! (i + k)) - fst (cse ! (i + k)))
     \<and> ncols (ms ! k) = nat (snd (cse ! (i + k)) - fst (cse ! (i + k)))
     \<and> coeff (ms ! k) a b = (if chroms ! k \<in> set (take k chroms) then 0
          else acc es (chroms ! k) a b + acc es (chroms ! k) b a)"
  using assms
proof (induction chroms arbitrary: i es ms k)
  case Nil then show ?case by simp
next
  case (Cons chrom rest)
  from Cons.prems(1) obtain m1 ms' where il: "i < length cse"
    and m1: "csr_matrix (map (\<lambda>(c, b1, b2, v). (v, b1, b2)) (filter (\<lambda>(c, b1, b2, v). c = chrom) es))
        (snd (cse ! i) - fst (cse ! i)) = Inr m1"
    and rest: "build_m1_list rest cse (Suc i) (filter (\<lambda>(c, b1, b2, v). c \<noteq> chrom) es) = Inr ms'"
    and ms: "ms = \<lparr>nrows = nrows m1, ncols = nrows m1, coeff = (\<lambda>i j. coeff m1 i j + coeff m1 j i)\<rparr> # ms'"
    by (rule build_Cons_Inr)
  show ?case
  proof (cases k)
    case 0
    with il ms csr_matrix_Inr[OF m1] show ?thesis by (simp add: sum_masked)
  next
    case (Suc k')
    with Cons.prems(2) have k': "k' < length rest" by simp
    from Cons.IH[OF rest k'] Suc ms show ?thesis
      by (auto simp: acc_filter_other)
  qed
qed

lemma build_ok:
  assumes "i + length chroms \<le> length cse"
    and "\<forall>k<length chroms. fst (cse ! (i + k)) \<le> snd (cse ! (i + k))"
    and "\<forall>(c, b1, b2, v)\<in>set es. \<forall>k<length chroms. chroms ! k = c \<longrightarrow>
           0 \<le> b1 \<and> b1 < snd (cse ! (i + k)) - fst (cse ! (i + k)) \<and>
           0 \<le> b2 \<and> b2 < snd (cse ! (i + k)) - fst (cse ! (i + k))"
  shows "\<exists>ms. build_m1_list chroms cse i es = Inr ms"
  using assms
proof (induction chroms arbitrary: i es)
  case Nil then show ?case by simp
next
  case (Cons chrom rest)
  let ?n = "snd (cse ! i) - fst (cse ! i)"
  let ?ts = "map (\<lambda>(c, b1, b2, v). (v, b1, b2)) (filter (\<lambda>(c, b1, b2, v). c = chrom) es)"
  have il: "i < length cse" using Cons.prems(1) by simp
  have n0: "0 \<le> ?n" using Cons.prems(2)[rule_format, of 0] by simp
  have "\<forall>(v, r, c)\<in>set ?ts. 0 \<le> r \<and> r < ?n \<and> 0 \<le> c \<and> c < ?n"
    using Cons.prems(3) by fastforce
  from csr_matrix_ok[OF n0 this] obtain m1 where m1: "csr_matrix ?ts ?n = Inr m1" ..
  have sq: "nrows m1 = ncols m1" using csr_matrix_Inr(2,3)[OF m1] by simp
  have "\<exists>ms. build_m1_list rest cse (Suc i) (filter (\<lambda>(c, b1, b2, v). c \<noteq> chrom) es) = Inr ms"
  proof (rule Cons.IH)
    show "Suc i + length rest \<le> length cse" using Cons.prems(1) by simp
    show "\<forall>k<length rest. fst (cse ! (Suc i + k)) \<le> snd (cse ! (Suc i + k))"
      using Cons.prems(2) by (metis Suc_less_eq add_Suc_shift length_Cons)
    show "\<forall>(c, b1, b2, v)\<in>set (filter (\<lambda>(c, b1, b2, v). c \<noteq> chrom) es). \<forall>k<length rest. rest ! k = c \<longrightarrow>
           0 \<le> b1 \<and> b1 < snd (cse ! (Suc i + k)) - fst (cse ! (Suc i + k)) \<and>
           0 \<le> b2 \<and> b2 < snd (cse ! (Suc i + k)) - fst (cse ! (Suc i + k))"
    proof (clarsimp)
      fix c b1 b2 v k assume a: "(rest ! k, b1, b2, v) \<in> set es" "k < length rest"
      from Cons.prems(3) a(1) have "\<forall>k'<length (chrom # rest). (chrom # rest) ! k' = rest ! k \<longrightarrow>
           0 \<le> b1 \<and> b1 < snd (cse ! (i + k')) - fst (cse ! (i + k')) \<and>
           0 \<le> b2 \<and> b2 < snd (cse ! (i + k')) - fst (cse ! (i + k'))" by fastforce
      from this[rule_format, of "Suc k"] a(2)
      show "0 \<le> b1 \<and> b1 < snd (cse ! Suc (i + k)) - fst (cse ! Suc (i + k)) \<and>
           0 \<le> b2 \<and> b2 < snd (cse ! Suc (i + k)) - fst (cse ! Suc (i + k))" by simp
    qed
  qed
  then obtain ms where "build_m1_list rest cse (Suc i) (filter (\<lambda>(c, b1, b2, v). c \<noteq> chrom) es) = Inr ms" ..
  with il m1 show ?case by (simp add: Let_def csr_add_transpose[OF sq])
qed

subsection \<open>The blacklist filter is a filter\<close>

lemma iloc_in_range:
  "\<forall>i\<in>set idx. i < length df \<Longrightarrow> iloc df idx = Inr (map ((!) df) idx)"
  by (induction idx) auto

lemma filter_by_position:
  "map ((!) xs) (filter (\<lambda>i. P (xs ! i)) [0..<length xs]) = filter P xs"
proof -
  have "filter P xs = filter P (map ((!) xs) [0..<length xs])"
    by (simp add: map_nth)
  also have "\<dots> = map ((!) xs) (filter (P \<circ> (!) xs) [0..<length xs])"
    by (simp only: filter_map)
  finally show ?thesis by (simp add: comp_def)
qed

lemma names_of_survivors:
  "map (\<lambda>(c, s, e, n). n) (subtract sv (map (\<lambda>(i, r). (fc r, fs r, fe r, i)) (enumerate 0 df)))
     = filter (\<lambda>i. sv (fc (df ! i), fs (df ! i), fe (df ! i))) [0..<length df]"
proof (induction df rule: rev_induct)
  case Nil
  show ?case by (simp add: subtract_def)
next
  case (snoc x xs)
  have cong: "filter (\<lambda>i. Q ((xs @ [x]) ! i)) [0..<length xs] = filter (\<lambda>i. Q (xs ! i)) [0..<length xs]" for Q :: "'a \<Rightarrow> bool"
    by (rule filter_cong) (auto simp: nth_append)
  from snoc cong[of "\<lambda>r. sv (fc r, fs r, fe r)"] show ?case
    by (auto simp: subtract_def enumerate_append_eq split: prod.splits)
qed

lemma intersect1d_filters:
  "intersect1d (filter p [0..<n]) (filter q [0..<n]) = filter (\<lambda>i. p i \<and> q i) [0..<n]"
proof -
  have "filter (\<lambda>x. x \<in> set (filter q [0..<n])) (filter p [0..<n]) = filter (\<lambda>i. p i \<and> q i) [0..<n]"
    by (auto intro: filter_cong)
  moreover have "distinct (filter (\<lambda>i. p i \<and> q i) [0..<n])" by simp
  moreover have "sorted (filter (\<lambda>i. p i \<and> q i) [0..<n])" by (simp add: sorted_wrt_filter)
  ultimately show ?thesis
    by (simp add: intersect1d_def distinct_remdups_id sort_key_id_if_sorted del: filter_filter)
qed

lemma remove_blacklist_filter:
  "remove_blacklist sv chromdf = Inr (filter (anchors_survive sv) chromdf)"
proof -
  let ?l = "\<lambda>i. sv (chrom1 (chromdf ! i), pos1 (chromdf ! i), pos1 (chromdf ! i))"
  let ?r = "\<lambda>i. sv (chrom2 (chromdf ! i), pos2 (chromdf ! i), pos2 (chromdf ! i))"
  have l: "map (\<lambda>(c, s, e, n). n) (subtract sv (map (\<lambda>(i, r). (chrom1 r, pos1 r, pos1 r, i)) (enumerate 0 chromdf)))
      = filter ?l [0..<length chromdf]"
    by (rule names_of_survivors)
  have r: "map (\<lambda>(c, s, e, n). n) (subtract sv (map (\<lambda>(i, r). (chrom2 r, pos2 r, pos2 r, i)) (enumerate 0 chromdf)))
      = filter ?r [0..<length chromdf]"
    by (rule names_of_survivors)
  have "remove_blacklist sv chromdf = iloc chromdf (filter (\<lambda>i. ?l i \<and> ?r i) [0..<length chromdf])"
    unfolding remove_blacklist_def Let_def l r intersect1d_filters ..
  also have "\<dots> = Inr (map ((!) chromdf) (filter (\<lambda>i. anchors_survive sv (chromdf ! i)) [0..<length chromdf]))"
    unfolding anchors_survive_def by (rule iloc_in_range) simp
  finally show ?thesis by (simp only: filter_by_position)
qed

subsection \<open>\<open>data2mtx\<close> as a whole\<close>

lemma data2mtx_Inr:
  assumes "data2mtx cfg w file cse cid bl = Inr (ms, c)"
  shows "c = cid" "has_count (load_tab w file)"
    "build_m1_list (chrom_list cfg) cse 0 (binned (resolution cfg) (surviving w file bl)) = Inr ms"
  using assms
  by (auto simp: data2mtx_def surviving_def Let_def remove_blacklist_filter split: if_splits sum.splits)

lemma data2mtx_eq:
  "data2mtx cfg w file cse cid bl =
     (if \<not> has_count (load_tab w file) then Inl KeyError
      else case build_m1_list (chrom_list cfg) cse 0 (binned (resolution cfg) (surviving w file bl)) of
             Inl e \<Rightarrow> Inl e | Inr ms \<Rightarrow> Inr (ms, cid))"
  by (auto simp: data2mtx_def surviving_def Let_def remove_blacklist_filter split: if_splits sum.splits)


lemma data2mtx_entry:
  assumes "data2mtx cfg w file cse cid bl = Inr (m1_list, c)" and "k < length (chrom_list cfg)"
  shows "fst (cse ! k) \<le> snd (cse ! k)"
    and "nrows (m1_list ! k) = nat (snd (cse ! k) - fst (cse ! k))"
    and "ncols (m1_list ! k) = nat (snd (cse ! k) - fst (cse ! k))"
    and "coeff (m1_list ! k) a b =
          (if chrom_list cfg ! k \<in> set (take k (chrom_list cfg)) then 0
           else accumulated (resolution cfg) (surviving w file bl) (chrom_list cfg ! k) a b
              + accumulated (resolution cfg) (surviving w file bl) (chrom_list cfg ! k) b a)"
  using build_entry[OF data2mtx_Inr(3)[OF assms(1)] assms(2), of a b]
  by (simp_all add: acc_binned)

lemma data2mtx_zero:
  assumes "data2mtx cfg w file cse cid bl = Inr (m1_list, c)" and "k < length (chrom_list cfg)"
    and "\<forall>r\<in>set (surviving w file bl). chrom1 r \<noteq> chrom_list cfg ! k"
  shows "all_zero (m1_list ! k)"
proof -
  from assms(3) have "filter (\<lambda>r. chrom1 r = chrom_list cfg ! k \<and> pos1 r div resolution cfg = int a
        \<and> pos2 r div resolution cfg = int b) (surviving w file bl) = []" for a b
    by (simp add: filter_empty_conv)
  then have "accumulated (resolution cfg) (surviving w file bl) (chrom_list cfg ! k) a b = 0" for a b
    by (simp add: accumulated_def)
  then show ?thesis
    unfolding all_zero_def using data2mtx_entry(4)[OF assms(1,2)] by simp
qed

text \<open>\<open>data2mtx\<close> returns, with the cell id it was given, when the table has a count
  column, \<open>chrom_start_end\<close> has a window that is not negative for every chromosome, and
  every surviving row of a configured chromosome has its bins inside the window (for a
  resolution other than 0).\<close>

lemma data2mtx_returns:
  assumes "resolution cfg \<noteq> 0"
    and "has_count (load_tab w file)"
    and "length (chrom_list cfg) \<le> length cse"
    and "\<forall>k<length (chrom_list cfg). fst (cse ! k) \<le> snd (cse ! k)"
    and "\<forall>r\<in>set (surviving w file bl). \<forall>k<length (chrom_list cfg). chrom_list cfg ! k = chrom1 r \<longrightarrow>
           0 \<le> pos1 r div resolution cfg \<and> pos1 r div resolution cfg < snd (cse ! k) - fst (cse ! k) \<and>
           0 \<le> pos2 r div resolution cfg \<and> pos2 r div resolution cfg < snd (cse ! k) - fst (cse ! k)"
  shows "\<exists>m1_list. data2mtx cfg w file cse cid bl = Inr (m1_list, cid)"
proof -
  have "\<exists>ms. build_m1_list (chrom_list cfg) cse 0 (binned (resolution cfg) (surviving w file bl)) = Inr ms"
    by (rule build_ok) (use assms(3-5) in \<open>auto simp: binned_def\<close>)
  with assms(2) show ?thesis by (auto simp: data2mtx_eq)
qed

lemma ex_surviving: "surviving (ex_world ex_tab) (Table ex_tab) [] = rows ex_tab"
  by (simp add: surviving_def load_tab_def keep_contact_def ex_defs)

lemma ex_returns:
  "\<exists>m1_list. data2mtx ex_cfg (ex_world ex_tab) (Table ex_tab) [(0, 10), (10, 15)] 0 [] = Inr (m1_list, 0)"
proof (rule data2mtx_returns)
  show "resolution ex_cfg \<noteq> 0" by (simp add: ex_cfg_def)
  show "has_count (load_tab (ex_world ex_tab) (Table ex_tab))"
    by (simp add: load_tab_def ex_tab_def)
  show "length (chrom_list ex_cfg) \<le> length [(0, 10), (10, 15) :: int \<times> int]"
    by (simp add: ex_cfg_def)
  show "\<forall>k<length (chrom_list ex_cfg).
          fst ([(0, 10), (10, 15) :: int \<times> int] ! k) \<le> snd ([(0, 10), (10, 15)] ! k)"
    by (simp add: ex_cfg_def less_Suc_eq numeral_2_eq_2)
  show "\<forall>r\<in>set (surviving (ex_world ex_tab) (Table ex_tab) []). \<forall>k<length (chrom_list ex_cfg).
          chrom_list ex_cfg ! k = chrom1 r \<longrightarrow>
          0 \<le> pos1 r div resolution ex_cfg \<and>
          pos1 r div resolution ex_cfg < snd ([(0, 10), (10, 15)] ! k) - fst ([(0, 10), (10, 15)] ! k) \<and>
          0 \<le> pos2 r div resolution ex_cfg \<and>
          pos2 r div resolution ex_cfg < snd ([(0, 10), (10, 15)] ! k) - fst ([(0, 10), (10, 15)] ! k)"
    unfolding ex_surviving by (simp add: ex_cfg_def ex_tab_def ex_row_def less_Suc_eq numeral_2_eq_2)
qed

section \<open>The aggregation loop\<close>

lemma list_set_nonneg:
  "0 \<le> c \<Longrightarrow> list_set xs c v = (if nat c < length xs then Inr (xs[nat c := v]) else Inl IndexError)"
  by (auto simp: list_set_def Let_def)

lemma place_append:
  "place (is @ js) ml c g = (case place is ml c g of Inl e \<Rightarrow> Inl e | Inr g' \<Rightarrow> place js ml c g')"
  by (induction "is" arbitrary: g) (auto split: sum.splits)

lemma length_placed [simp]: "length (placed n ml c g) = length g"
  by (simp add: placed_def)

lemma nth_placed:
  "i < length g \<Longrightarrow> placed n ml c g ! i = (if i < n then (g ! i)[nat c := Mtx (ml ! i)] else g ! i)"
  by (simp add: placed_def)

lemma placed_Suc:
  assumes "n < length g"
  shows "(placed n ml c g)[n := (g ! n)[nat c := Mtx (ml ! n)]] = placed (Suc n) ml c g"
  using assms by (intro nth_equalityI) (auto simp: nth_placed nth_list_update)

lemma place_upt:
  assumes "0 \<le> c"
  shows "place [0..<n] ml c g = (if can_place n ml c g then Inr (placed n ml c g) else Inl IndexError)"
proof (induction n)
  case 0
  have "placed 0 ml c g = g" by (intro nth_equalityI) (simp_all add: nth_placed)
  then show ?case by (simp add: can_place_def)
next
  case (Suc n)
  have split: "can_place (Suc n) ml c g \<longleftrightarrow>
      can_place n ml c g \<and> n < length ml \<and> n < length g \<and> nat c < length (g ! n)"
    by (auto simp: can_place_def less_Suc_eq)
  show ?case
  proof (cases "can_place n ml c g")
    case False
    with Suc split show ?thesis by (simp add: place_append)
  next
    case True
    show ?thesis
    proof (cases "n < length ml \<and> n < length g \<and> nat c < length (g ! n)")
      case False
      with True Suc split show ?thesis
        by (auto simp: place_append nth_placed list_set_nonneg[OF assms])
    next
      case ok: True
      with True Suc split show ?thesis
        by (simp add: place_append nth_placed list_set_nonneg[OF assms] placed_Suc)
    qed
  qed
qed

lemma can_place_placed:
  assumes "can_place n ml1 c1 g"
  shows "can_place n ml2 c2 (placed n ml1 c1 g) \<longleftrightarrow> can_place n ml2 c2 g"
  using assms by (auto simp: can_place_def nth_placed)

lemma placed_commute:
  assumes "can_place n ml1 c1 g" "can_place n ml2 c2 g" "0 \<le> c1" "0 \<le> c2" "c1 \<noteq> c2"
  shows "placed n ml2 c2 (placed n ml1 c1 g) = placed n ml1 c1 (placed n ml2 c2 g)"
proof (rule nth_equalityI)
  show "length (placed n ml2 c2 (placed n ml1 c1 g)) = length (placed n ml1 c1 (placed n ml2 c2 g))"
    by simp
  fix i assume "i < length (placed n ml2 c2 (placed n ml1 c1 g))"
  then have i: "i < length g" by simp
  have ne: "nat c1 \<noteq> nat c2" using assms(3-5) by simp
  show "placed n ml2 c2 (placed n ml1 c1 g) ! i = placed n ml1 c1 (placed n ml2 c2 g) ! i"
    using i ne by (simp add: nth_placed list_update_swap)
qed

lemma agg_step_simps:
  "agg_step n p (Inl e) = Inl e"
  "agg_step n (Inl e) (Inr g) = Inl e"
  "agg_step n (Inr (ml, c)) (Inr g) = place [0..<n] ml c g"
  by (simp_all add: agg_step_def)

lemma agg_step_commute:
  assumes "0 \<le> c1" "0 \<le> c2" "c1 \<noteq> c2"
  shows "agg_step n (Inr (ml1, c1)) (agg_step n (Inr (ml2, c2)) st)
       = agg_step n (Inr (ml2, c2)) (agg_step n (Inr (ml1, c1)) st)"
proof (cases st)
  case (Inl e)
  then show ?thesis by (simp add: agg_step_def)
next
  case (Inr g)
  show ?thesis
  proof (cases "can_place n ml1 c1 g"; cases "can_place n ml2 c2 g")
    assume a: "can_place n ml1 c1 g" "can_place n ml2 c2 g"
    with Inr assms show ?thesis
      by (simp add: agg_step_def place_upt can_place_placed placed_commute)
  qed (use Inr assms in \<open>auto simp: agg_step_def place_upt can_place_placed\<close>)
qed

lemma fold_agg_step_Inl: "fold (agg_step n) ps (Inl e) = Inl e"
  by (induction ps) (simp_all add: agg_step_simps)

lemma aggregate_fold: "aggregate n ps g = fold (agg_step n) ps (Inr g)"
proof (induction ps arbitrary: g)
  case Nil
  show ?case by simp
next
  case (Cons p ps)
  show ?case
  proof (cases p)
    case (Inl e)
    then show ?thesis by (simp add: agg_step_simps fold_agg_step_Inl)
  next
    case (Inr r)
    obtain ml c where r: "r = (ml, c)" by (cases r)
    show ?thesis unfolding Inr r
      by (cases "place [0..<n] ml c g") (simp_all add: agg_step_simps fold_agg_step_Inl Cons.IH)
  qed
qed

section \<open>The input format does not reach the layouts\<close>





section \<open>What the aggregation leaves in a slot\<close>

lemma aggregate_Inr_futures:
  "aggregate n qs g = Inr g' \<Longrightarrow> \<forall>q\<in>set qs. \<exists>r. q = Inr r"
proof (induction qs arbitrary: g)
  case Nil then show ?case by simp
next
  case (Cons q qs)
  then show ?case by (auto split: sum.splits)
qed

lemma aggregate_Cons_Inr:
  assumes "aggregate n (Inr (ml, c) # qs) g = Inr g'" "0 \<le> c"
  shows "can_place n ml c g" "aggregate n qs (placed n ml c g) = Inr g'"
  using assms by (auto simp: place_upt split: sum.splits if_splits)

lemma aggregate_lengths:
  assumes "aggregate n (map Inr rs) g = Inr g'" "\<forall>r\<in>set rs. 0 \<le> snd r"
  shows "length g' = length g \<and> (\<forall>i<length g. length (g' ! i) = length (g ! i))"
  using assms
proof (induction rs arbitrary: g)
  case Nil then show ?case by simp
next
  case (Cons r rs)
  obtain ml c where r: "r = (ml, c)" by (cases r)
  from Cons.prems r have c: "0 \<le> c" by simp
  from Cons.prems(1) have a: "aggregate n (Inr (ml, c) # map Inr rs) g = Inr g'" by (simp add: r)
  note s = aggregate_Cons_Inr[OF a c]
  from Cons.IH[OF s(2)] Cons.prems(2) show ?case by (auto simp: nth_placed)
qed

lemma aggregate_keeps:
  assumes "aggregate n (map Inr rs) g = Inr g'" "\<forall>r\<in>set rs. 0 \<le> snd r \<and> snd r \<noteq> c"
    "0 \<le> c" "i < length g"
  shows "g' ! i ! nat c = g ! i ! nat c"
  using assms
proof (induction rs arbitrary: g)
  case Nil then show ?case by simp
next
  case (Cons r rs)
  obtain ml c0 where r: "r = (ml, c0)" by (cases r)
  from Cons.prems r have c0: "0 \<le> c0" "c0 \<noteq> c" by simp_all
  from Cons.prems(1) have a: "aggregate n (Inr (ml, c0) # map Inr rs) g = Inr g'" by (simp add: r)
  note s = aggregate_Cons_Inr[OF a c0(1)]
  have "g' ! i ! nat c = placed n ml c0 g ! i ! nat c"
    by (rule Cons.IH[OF s(2)]) (use Cons.prems in auto)
  also have "\<dots> = g ! i ! nat c"
    using Cons.prems(3,4) c0 by (simp add: nth_placed)
  finally show ?case .
qed

lemma aggregate_slot:
  assumes "aggregate n (map Inr rs) g = Inr g'" "\<forall>r\<in>set rs. 0 \<le> snd r"
    "distinct (map snd rs)" "(ml, c) \<in> set rs" "i < n"
  shows "i < length g \<and> nat c < length (g ! i) \<and> g' ! i ! nat c = Mtx (ml ! i)"
  using assms
proof (induction rs arbitrary: g)
  case Nil then show ?case by simp
next
  case (Cons r rs)
  obtain ml0 c0 where r: "r = (ml0, c0)" by (cases r)
  from Cons.prems r have c0: "0 \<le> c0" by simp
  from Cons.prems(1) have a: "aggregate n (Inr (ml0, c0) # map Inr rs) g = Inr g'" by (simp add: r)
  note s = aggregate_Cons_Inr[OF a c0]
  from s(1) \<open>i < n\<close> have ig: "i < length g" "nat c0 < length (g ! i)"
    by (auto simp: can_place_def)
  show ?case
  proof (cases "(ml, c) = (ml0, c0)")
    case True
    have "g' ! i ! nat c = placed n ml0 c0 g ! i ! nat c"
      by (rule aggregate_keeps[OF s(2)]) (use Cons.prems r True ig in auto)
    with True ig \<open>i < n\<close> show ?thesis by (simp add: nth_placed)
  next
    case False
    with Cons.prems(4) r have "(ml, c) \<in> set rs" by auto
    from Cons.IH[OF s(2) _ _ this \<open>i < n\<close>] Cons.prems(2,3) ig
    show ?thesis by (auto simp: nth_placed split: if_splits)
  qed
qed

lemma aggregate_succeeds:
  assumes "\<forall>r\<in>set rs. 0 \<le> snd r \<and> nat (snd r) < W \<and> n \<le> length (fst r)"
    and "n \<le> length g" and "\<forall>i<n. length (g ! i) = W"
  shows "\<exists>g'. aggregate n (map Inr rs) g = Inr g'"
  using assms
proof (induction rs arbitrary: g)
  case Nil then show ?case by simp
next
  case (Cons r rs)
  obtain ml c where r: "r = (ml, c)" by (cases r)
  from Cons.prems r have c: "0 \<le> c" "nat c < W" "n \<le> length ml" by auto
  have cp: "can_place n ml c g" using c Cons.prems(2,3) by (simp add: can_place_def)
  have "\<exists>g'. aggregate n (map Inr rs) (placed n ml c g) = Inr g'"
  proof (rule Cons.IH)
    show "\<forall>r\<in>set rs. 0 \<le> snd r \<and> nat (snd r) < W \<and> n \<le> length (fst r)"
      using Cons.prems(1) by simp
    show "n \<le> length (placed n ml c g)" using Cons.prems(2) by simp
    show "\<forall>i<n. length (placed n ml c g ! i) = W"
      using Cons.prems(2,3) by (simp add: nth_placed)
  qed
  with cp c(1) show ?case by (simp add: r place_upt)
qed

lemma futures_results:
  assumes "\<forall>q\<in>set qs. \<exists>r. q = Inr r"
  shows "qs = map Inr (results_of qs)"
  using assms unfolding results_of_def by (induction qs) auto

lemma aggregate_tasks_slot:
  assumes agg: "aggregate n qs g = Inr g'"
    and perm: "mset qs = mset (map f cids)"
    and cids: "distinct cids" "\<forall>c\<in>set cids. 0 \<le> c"
    and own: "\<forall>c\<in>set cids. \<forall>ml c'. f c = Inr (ml, c') \<longrightarrow> c' = c"
    and c: "c \<in> set cids" and i: "i < n"
  shows "\<exists>ml. f c = Inr (ml, c) \<and> i < length g \<and> nat c < length (g ! i) \<and> g' ! i ! nat c = Mtx (ml ! i)"
proof -
  from futures_results[OF aggregate_Inr_futures[OF agg]]
  obtain rs where qs: "qs = map Inr rs" ..
  have set_eq: "set qs = f ` set cids" using mset_eq_setD[OF perm] by simp
  have fc: "\<exists>ml. f c' = Inr (ml, c')" if "c' \<in> set cids" for c'
  proof -
    from that set_eq have "f c' \<in> set qs" by auto
    with aggregate_Inr_futures[OF agg] obtain r where "f c' = Inr r" by auto
    with own that show ?thesis by (cases r) auto
  qed
  have snd_f: "snd (projr (f c')) = c'" if "c' \<in> set cids" for c'
    using fc[OF that] by auto
  have "mset (map snd rs) = image_mset (\<lambda>q. snd (projr q)) (mset qs)"
    unfolding qs by (simp add: multiset.map_comp comp_def)
  also have "\<dots> = image_mset (\<lambda>q. snd (projr q)) (mset (map f cids))"
    by (simp only: perm)
  also have "\<dots> = mset (map (\<lambda>c. snd (projr (f c))) cids)"
    by (simp add: multiset.map_comp comp_def)
  also have "map (\<lambda>c. snd (projr (f c))) cids = cids"
    by (rule map_idI) (rule snd_f)
  finally have ms: "mset (map snd rs) = mset cids" .
  have d: "distinct (map snd rs)" using cids(1) mset_eq_imp_distinct_iff[OF ms] by simp
  have "set (map snd rs) = set cids" by (rule mset_eq_setD[OF ms])
  with cids(2) have nn: "\<forall>r\<in>set rs. 0 \<le> snd r" by auto
  from fc[OF c] obtain ml where ml: "f c = Inr (ml, c)" ..
  with c set_eq have "Inr (ml, c) \<in> set qs" by force
  then have mem: "(ml, c) \<in> set rs" unfolding qs by auto
  from agg have "aggregate n (map Inr rs) g = Inr g'" unfolding qs .
  from aggregate_slot[OF this nn d mem i] ml show ?thesis by blast
qed

lemma aggregate_tasks_lengths:
  assumes agg: "aggregate n qs g = Inr g'"
    and perm: "mset qs = mset (map f cids)"
    and cids: "\<forall>c\<in>set cids. 0 \<le> c"
    and own: "\<forall>c\<in>set cids. \<forall>ml c'. f c = Inr (ml, c') \<longrightarrow> c' = c"
  shows "length g' = length g \<and> (\<forall>i<length g. length (g' ! i) = length (g ! i))"
proof -
  from futures_results[OF aggregate_Inr_futures[OF agg]]
  obtain rs where qs: "qs = map Inr rs" ..
  have set_eq: "set qs = f ` set cids" using mset_eq_setD[OF perm] by simp
  have "0 \<le> snd r" if "r \<in> set rs" for r
  proof -
    from that have "Inr r \<in> set qs" unfolding qs by simp
    with set_eq obtain c where c: "c \<in> set cids" "f c = Inr r" by auto
    with own have "snd r = c" by (cases r) auto
    with c cids show ?thesis by simp
  qed
  then have nn: "\<forall>r\<in>set rs. 0 \<le> snd r" by simp
  from agg have "aggregate n (map Inr rs) g = Inr g'" unfolding qs .
  from aggregate_lengths[OF this nn] show ?thesis .
qed

section \<open>The chunked layout on a table with contiguous cell ids\<close>

lemma contiguous_ids_appendD: "contiguous_ids (xs @ ys) \<Longrightarrow> contiguous_ids ys"
  by (induction xs) auto

lemma contiguous_ids_appendD1: "contiguous_ids (xs @ ys) \<Longrightarrow> contiguous_ids xs"
proof (induction xs)
  case Nil then show ?case by simp
next
  case (Cons x xs)
  have "set (dropWhile (\<lambda>y. y = x) xs) \<subseteq> set (dropWhile (\<lambda>y. y = x) (xs @ ys))"
    by (induction xs) auto
  with Cons show ?case by auto
qed

lemma in_dropWhile:
  assumes "b \<in> set bs" "\<not> P b" "c \<in> set cs"
  shows "c \<in> set (dropWhile P (bs @ cs))"
proof -
  from assms(1,2) have "dropWhile P (bs @ cs) = dropWhile P bs @ cs"
    by (intro dropWhile_append1) auto
  with assms(3) show ?thesis by simp
qed

text \<open>Between two rows of a cell there are only rows of that cell.\<close>

lemma contiguous_between:
  assumes "contiguous_ids (as @ bs @ cs)" "c \<in> set as" "c \<in> set cs"
  shows "set bs \<subseteq> {c}"
  using assms
proof (induction as)
  case Nil then show ?case by simp
next
  case (Cons a as)
  show ?case
  proof (cases "c \<in> set as")
    case True
    with Cons show ?thesis by simp
  next
    case False
    with Cons.prems(2) have ca: "c = a" by simp
    from Cons.prems(1) have nd: "a \<notin> set (dropWhile (\<lambda>y. y = a) (as @ bs @ cs))" by simp
    show ?thesis
    proof (rule ccontr)
      assume "\<not> set bs \<subseteq> {c}"
      then obtain b where b: "b \<in> set bs" "b \<noteq> a" using ca by auto
      then have "b \<in> set (as @ bs)" by simp
      from in_dropWhile[OF this, of "\<lambda>y. y = a" c cs] b(2) Cons.prems(3)
      have "c \<in> set (dropWhile (\<lambda>y. y = a) ((as @ bs) @ cs))" by simp
      with nd ca show False by simp
    qed
  qed
qed

text \<open>The rows of the last cell of a contiguous chunk are the end of the chunk.\<close>

lemma split_last_run:
  assumes "contiguous_ids (map f C)" "C \<noteq> []"
  shows "C = filter (\<lambda>r. f r \<noteq> f (last C)) C @ filter (\<lambda>r. f r = f (last C)) C"
  using assms
proof (induction C)
  case Nil then show ?case by simp
next
  case (Cons x C)
  show ?case
  proof (cases "C = []")
    case True then show ?thesis by simp
  next
    case False
    from Cons.prems have cC: "contiguous_ids (map f C)" by simp
    note IH = Cons.IH[OF cC False]
    let ?L = "f (last C)"
    show ?thesis
    proof (cases "f x = ?L")
      case True
      have "set (map f C) \<subseteq> {?L}"
      proof -
        obtain B where B: "C = B @ [last C]"
          by (rule that[of "butlast C"]) (use False in simp)
        have "map f (x # C) = [f x] @ map f B @ [?L]"
          using arg_cong[OF B, of "\<lambda>zs. map f (x # zs)"] by simp
        with Cons.prems(1) have "contiguous_ids ([f x] @ map f B @ [?L])" by simp
        from contiguous_between[OF this, of "?L"] True
        have "set (map f B) \<subseteq> {?L}" by simp
        moreover have "set (map f C) = set (map f B) \<union> {?L}"
          using arg_cong[OF B, of "\<lambda>zs. set (map f zs)"] by simp
        ultimately show ?thesis by auto
      qed
      then have all: "\<forall>r\<in>set C. f r = ?L" by auto
      then have "filter (\<lambda>r. f r \<noteq> ?L) C = []" "filter (\<lambda>r. f r = ?L) C = C"
        by (simp_all add: filter_empty_conv filter_id_conv)
      with True False show ?thesis by simp
    next
      case ne: False
      have l: "last (x # C) = last C" using False by simp
      have "filter (\<lambda>r. f r \<noteq> f (last (x # C))) (x # C) @ filter (\<lambda>r. f r = f (last (x # C))) (x # C)
          = x # (filter (\<lambda>r. f r \<noteq> ?L) C @ filter (\<lambda>r. f r = ?L) C)"
        unfolding l using ne by simp
      also have "\<dots> = x # C" by (simp only: IH[symmetric])
      finally show ?thesis by (rule sym)
    qed
  qed
qed

lemma not_single_id:
  assumes "length (remdups (map f C)) \<noteq> 1" "C \<noteq> []"
  shows "\<exists>r\<in>set C. f r \<noteq> f (last C)"
proof (rule ccontr)
  assume "\<not> (\<exists>r\<in>set C. f r \<noteq> f (last C))"
  then have all: "\<forall>r\<in>set C. f r = f (last C)" by blast
  have "last C \<in> set C" using assms(2) by (rule last_in_set)
  then have "f (last C) \<in> f ` set C" by (rule imageI)
  with all have "f ` set C = {f (last C)}" by blast
  then have "set (map f C) = {f (last C)}" by (simp only: set_map)
  then have "card (set (map f C)) = card {f (last C)}" by (rule arg_cong)
  also have "\<dots> = 1" by simp
  finally have "card (set (map f C)) = 1" .
  then have "length (remdups (map f C)) = 1" by (simp only: length_remdups_card_conv)
  with assms(1) show False by simp
qed

lemma fold_submit:
  "fold (\<lambda>c (ps, cn). (ps @ [g c], max cn (c + 1))) cs (ps, cn)
     = (ps @ map g cs, fold (\<lambda>c m. max m (c + 1)) cs (cn :: int))"
  by (induction cs arbitrary: ps cn) simp_all

lemma submit_cells_eq:
  "submit_cells cfg w bl hc T (ps, cn) =
     (ps @ map (\<lambda>c. data2mtx cfg w (Table \<lparr>has_count = hc, rows = filter (\<lambda>r. cell_id r = c) T\<rparr>)
                        (chrom_start_end_npy w) c bl) (np_unique (map cell_id T)),
      fold (\<lambda>c m. max m (c + 1)) (np_unique (map cell_id T)) cn)"
  unfolding submit_cells_def by (rule fold_submit)

lemma set_np_unique [simp]: "set (np_unique xs) = set xs"
  by (simp add: np_unique_def)

lemma distinct_np_unique [simp]: "distinct (np_unique xs)"
  by (simp add: np_unique_def)

lemma task_of_part:
  assumes "filter (\<lambda>r. cell_id r = c) T = filter (\<lambda>r. cell_id r = c) (rows (data_txt w))"
  shows "data2mtx cfg w (Table \<lparr>has_count = has_count (data_txt w), rows = filter (\<lambda>r. cell_id r = c) T\<rparr>)
            (chrom_start_end_npy w) c bl = cell_task cfg w bl c"
proof -
  have "rows_of_cell (data_txt w) c
      = \<lparr>has_count = has_count (data_txt w), rows = filter (\<lambda>r. cell_id r = c) (rows (data_txt w))\<rparr>"
    by (cases "data_txt w") (simp add: rows_of_cell_def)
  then show ?thesis by (simp add: cell_task_def assms)
qed

lemma submit_cells_tasks:
  assumes "\<forall>c\<in>cell_id ` set T.
      filter (\<lambda>r. cell_id r = c) T = filter (\<lambda>r. cell_id r = c) (rows (data_txt w))"
  shows "submit_cells cfg w bl (has_count (data_txt w)) T (ps, cn) =
     (ps @ map (cell_task cfg w bl) (np_unique (map cell_id T)),
      fold (\<lambda>c m. max m (c + 1)) (np_unique (map cell_id T)) cn)"
proof -
  have "map (\<lambda>c. data2mtx cfg w (Table \<lparr>has_count = has_count (data_txt w),
                      rows = filter (\<lambda>r. cell_id r = c) T\<rparr>) (chrom_start_end_npy w) c bl)
            (np_unique (map cell_id T))
      = map (cell_task cfg w bl) (np_unique (map cell_id T))"
  proof (rule map_cong[OF refl])
    fix c assume "c \<in> set (np_unique (map cell_id T))"
    then have "c \<in> cell_id ` set T" by simp
    with assms have "filter (\<lambda>r. cell_id r = c) T = filter (\<lambda>r. cell_id r = c) (rows (data_txt w))"
      by blast
    then show "data2mtx cfg w (Table \<lparr>has_count = has_count (data_txt w),
                      rows = filter (\<lambda>r. cell_id r = c) T\<rparr>) (chrom_start_end_npy w) c bl
        = cell_task cfg w bl c"
      by (rule task_of_part)
  qed
  then show ?thesis by (simp only: submit_cells_eq)
qed

text \<open>
  The invariant of the loop over the chunks. The rows read so far are those already
  flushed, \<open>F\<close>, followed by the pending \<open>cell_tab\<close>; no cell id of \<open>F\<close> comes again. Then
  the loop ends without an exception, each task it submits is the task of the whole table
  for that cell id, and no cell id is submitted twice.
\<close>

lemma read_chunks_inv:
  assumes R: "rows (data_txt w) = F @ concat cell_tab @ concat chunks"
    and cont: "contiguous_ids (map cell_id (rows (data_txt w)))"
    and ne: "\<forall>ch\<in>set chunks. ch \<noteq> []"
    and disj: "cell_id ` set F \<inter> cell_id ` set (concat cell_tab @ concat chunks) = {}"
  shows "\<exists>X cell_tab' cs.
      read_chunks cfg w bl (has_count (data_txt w)) chunks (cell_tab, ps, cn)
        = Inr (cell_tab', ps @ map (cell_task cfg w bl) cs, fold (\<lambda>c m. max m (c + 1)) cs cn)
      \<and> concat cell_tab @ concat chunks = X @ concat cell_tab'
      \<and> distinct cs \<and> set cs = cell_id ` set X
      \<and> cell_id ` set (F @ X) \<inter> cell_id ` set (concat cell_tab') = {}
      \<and> (cell_tab \<noteq> [] \<or> chunks \<noteq> [] \<longrightarrow> cell_tab' \<noteq> [])"
  using R ne disj
proof (induction chunks arbitrary: F cell_tab ps cn)
  case Nil
  have "read_chunks cfg w bl (has_count (data_txt w)) [] (cell_tab, ps, cn)
        = Inr (cell_tab, ps @ map (cell_task cfg w bl) [], fold (\<lambda>c m. max m (c + 1)) [] cn)
      \<and> concat cell_tab @ concat [] = [] @ concat cell_tab
      \<and> distinct ([] :: int list) \<and> set ([] :: int list) = cell_id ` set []
      \<and> cell_id ` set (F @ []) \<inter> cell_id ` set (concat cell_tab) = {}
      \<and> (cell_tab \<noteq> [] \<or> ([] :: contact list list) \<noteq> [] \<longrightarrow> cell_tab \<noteq> [])"
    using Nil.prems(3) by simp
  then show ?case by blast
next
  case (Cons C rest)
  let ?hc = "has_count (data_txt w)"
  let ?task = "cell_task cfg w bl"
  let ?mx = "\<lambda>c (m :: int). max m (c + 1)"
  from Cons.prems(2) have Cne: "C \<noteq> []" and rest_ne: "\<forall>ch\<in>set rest. ch \<noteq> []" by simp_all
  have Req: "rows (data_txt w) = F @ concat cell_tab @ C @ concat rest" using Cons.prems(1) by simp
  show ?case
  proof (cases "length (remdups (map cell_id C)) = 1")
    case True
    have step: "read_chunks cfg w bl ?hc (C # rest) (cell_tab, ps, cn)
        = read_chunks cfg w bl ?hc rest (cell_tab @ [C], ps, cn)"
      using True by simp
    have "\<exists>X cell_tab' cs.
      read_chunks cfg w bl ?hc rest (cell_tab @ [C], ps, cn)
        = Inr (cell_tab', ps @ map ?task cs, fold ?mx cs cn)
      \<and> concat (cell_tab @ [C]) @ concat rest = X @ concat cell_tab'
      \<and> distinct cs \<and> set cs = cell_id ` set X
      \<and> cell_id ` set (F @ X) \<inter> cell_id ` set (concat cell_tab') = {}
      \<and> (cell_tab @ [C] \<noteq> [] \<or> rest \<noteq> [] \<longrightarrow> cell_tab' \<noteq> [])"
    proof (rule Cons.IH)
      show "rows (data_txt w) = F @ concat (cell_tab @ [C]) @ concat rest" using Req by simp
      show "\<forall>ch\<in>set rest. ch \<noteq> []" by (rule rest_ne)
      show "cell_id ` set F \<inter> cell_id ` set (concat (cell_tab @ [C]) @ concat rest) = {}"
        using Cons.prems(3) by simp
    qed
    then obtain X cell_tab' cs where r:
      "read_chunks cfg w bl ?hc rest (cell_tab @ [C], ps, cn)
        = Inr (cell_tab', ps @ map ?task cs, fold ?mx cs cn)"
      "concat (cell_tab @ [C]) @ concat rest = X @ concat cell_tab'"
      "distinct cs" "set cs = cell_id ` set X"
      "cell_id ` set (F @ X) \<inter> cell_id ` set (concat cell_tab') = {}"
      "cell_tab' \<noteq> []"
      by auto
    from r(2) have cat: "concat cell_tab @ concat (C # rest) = X @ concat cell_tab'" by simp
    from step r(1) have "read_chunks cfg w bl ?hc (C # rest) (cell_tab, ps, cn)
        = Inr (cell_tab', ps @ map ?task cs, fold ?mx cs cn)" by simp
    with cat r(3-6) show ?thesis by blast
  next
    case False
    define L where "L = cell_id (last C)"
    define tails where "tails = filter (\<lambda>r. cell_id r \<noteq> L) C"
    define head where "head = filter (\<lambda>r. cell_id r = L) C"
    define T where "T = concat cell_tab @ tails"
    define Q where "Q = concat rest"
    define cs1 where "cs1 = np_unique (map cell_id T)"
    have contR: "contiguous_ids (map cell_id ((F @ concat cell_tab) @ C @ concat rest))"
      using cont Req by simp
    have contC: "contiguous_ids (map cell_id C)"
    proof -
      from contR have "contiguous_ids (map cell_id (F @ concat cell_tab) @ (map cell_id C @ map cell_id (concat rest)))"
        by simp
      then have "contiguous_ids (map cell_id C @ map cell_id (concat rest))"
        by (rule contiguous_ids_appendD)
      then show ?thesis by (rule contiguous_ids_appendD1)
    qed
    have C: "C = tails @ head"
      unfolding tails_def head_def L_def by (rule split_last_run[OF contC Cne])
    have head_ne: "head \<noteq> []"
    proof -
      have "last C \<in> set C" using Cne by simp
      then have "last C \<in> set head" by (simp add: head_def L_def)
      then show ?thesis by auto
    qed
    have head_L: "cell_id ` set head \<subseteq> {L}" by (auto simp: head_def)
    have tails_L: "L \<notin> cell_id ` set tails" by (auto simp: tails_def)
    have tails_ne: "tails \<noteq> []"
    proof -
      from not_single_id[OF False Cne] obtain r where "r \<in> set C" "cell_id r \<noteq> L"
        unfolding L_def by blast
      then have "r \<in> set tails" by (simp add: tails_def)
      then show ?thesis by auto
    qed
    have Rids: "map cell_id (rows (data_txt w))
        = map cell_id (F @ concat cell_tab) @ map cell_id tails @ (map cell_id head @ map cell_id Q)"
      using Req unfolding Q_def by (subst (asm) C) simp
    have Rids2: "map cell_id (rows (data_txt w))
        = map cell_id (F @ T) @ map cell_id head @ map cell_id Q"
      using Rids by (simp add: T_def)
    have K2: "L \<notin> cell_id ` set (F @ concat cell_tab)"
    proof
      assume a: "L \<in> cell_id ` set (F @ concat cell_tab)"
      from head_ne head_L have "L \<in> cell_id ` set head" by (cases head) auto
      then have b: "L \<in> set (map cell_id head @ map cell_id Q)" by simp
      from a have a': "L \<in> set (map cell_id (F @ concat cell_tab))" by (simp only: set_map)
      from cont have "contiguous_ids (map cell_id (F @ concat cell_tab) @ map cell_id tails
            @ (map cell_id head @ map cell_id Q))"
        by (simp only: Rids)
      from contiguous_between[OF this a' b] have "set (map cell_id tails) \<subseteq> {L}" .
      with tails_ne tails_L show False by (cases tails) auto
    qed
    have LT: "L \<notin> cell_id ` set T" using K2 tails_L by (auto simp: T_def)
    have K3: "cell_id ` set T \<inter> cell_id ` set (head @ Q) = {}"
    proof (rule ccontr)
      assume "cell_id ` set T \<inter> cell_id ` set (head @ Q) \<noteq> {}"
      then obtain c where c: "c \<in> cell_id ` set T" "c \<in> cell_id ` set (head @ Q)" by blast
      with LT have cL: "c \<noteq> L" by auto
      with c(2) head_L have cQ: "c \<in> set (map cell_id Q)" by auto
      from c(1) have cT: "c \<in> set (map cell_id (F @ T))" by auto
      from cont have "contiguous_ids (map cell_id (F @ T) @ map cell_id head @ map cell_id Q)"
        by (simp only: Rids2)
      from contiguous_between[OF this cT cQ] have "set (map cell_id head) \<subseteq> {c}" .
      with head_ne head_L cL show False by (cases head) auto
    qed
    have setC: "set C = set tails \<union> set head" by (auto simp: tails_def head_def)
    have disjF: "cell_id ` set F \<inter> cell_id ` set (concat cell_tab @ C @ Q) = {}"
      using Cons.prems(3) by (simp add: Q_def)
    have disj1: "cell_id ` set (F @ T) \<inter> cell_id ` set (concat [head] @ concat rest) = {}"
    proof -
      have a: "cell_id ` set F \<inter> cell_id ` set (head @ Q) = {}"
        using disjF setC by auto
      have e1: "cell_id ` set (F @ T) = cell_id ` set F \<union> cell_id ` set T"
        by (simp add: image_Un)
      have e2: "concat [head] @ concat rest = head @ Q" by (simp add: Q_def)
      show ?thesis unfolding e1 e2 using a K3 by blast
    qed
    have parts: "\<forall>c\<in>cell_id ` set T.
        filter (\<lambda>r. cell_id r = c) T = filter (\<lambda>r. cell_id r = c) (rows (data_txt w))"
    proof
      fix c assume c: "c \<in> cell_id ` set T"
      have "c \<notin> cell_id ` set F" using c disjF setC by (auto simp: T_def)
      then have f1: "filter (\<lambda>r. cell_id r = c) F = []" by (auto simp: filter_empty_conv)
      have "c \<notin> cell_id ` set (head @ Q)" using c K3 by blast
      then have f2: "filter (\<lambda>r. cell_id r = c) (head @ Q) = []" by (auto simp: filter_empty_conv)
      have "rows (data_txt w) = F @ T @ (head @ Q)"
        using Req unfolding Q_def T_def by (subst (asm) C) simp
      then have "filter (\<lambda>r. cell_id r = c) (rows (data_txt w))
          = filter (\<lambda>r. cell_id r = c) F @ filter (\<lambda>r. cell_id r = c) T
            @ filter (\<lambda>r. cell_id r = c) (head @ Q)"
        by (simp only: filter_append)
      with f1 f2 show "filter (\<lambda>r. cell_id r = c) T = filter (\<lambda>r. cell_id r = c) (rows (data_txt w))"
        by simp
    qed
    have sub: "submit_cells cfg w bl ?hc T (ps, cn) = (ps @ map ?task cs1, fold ?mx cs1 cn)"
      unfolding cs1_def by (rule submit_cells_tasks[OF parts])
    have step: "read_chunks cfg w bl ?hc (C # rest) (cell_tab, ps, cn)
        = read_chunks cfg w bl ?hc rest ([head], ps @ map ?task cs1, fold ?mx cs1 cn)"
      using False Cne sub by (simp add: Let_def T_def tails_def head_def L_def)
    have "\<exists>X cell_tab' cs.
      read_chunks cfg w bl ?hc rest ([head], ps @ map ?task cs1, fold ?mx cs1 cn)
        = Inr (cell_tab', (ps @ map ?task cs1) @ map ?task cs, fold ?mx cs (fold ?mx cs1 cn))
      \<and> concat [head] @ concat rest = X @ concat cell_tab'
      \<and> distinct cs \<and> set cs = cell_id ` set X
      \<and> cell_id ` set ((F @ T) @ X) \<inter> cell_id ` set (concat cell_tab') = {}
      \<and> ([head] \<noteq> [] \<or> rest \<noteq> [] \<longrightarrow> cell_tab' \<noteq> [])"
    proof (rule Cons.IH)
      show "rows (data_txt w) = (F @ T) @ concat [head] @ concat rest"
        using Req unfolding T_def by (subst (asm) C) simp
      show "\<forall>ch\<in>set rest. ch \<noteq> []" by (rule rest_ne)
      show "cell_id ` set (F @ T) \<inter> cell_id ` set (concat [head] @ concat rest) = {}"
        by (rule disj1)
    qed
    then obtain X2 cell_tab' cs2 where r:
      "read_chunks cfg w bl ?hc rest ([head], ps @ map ?task cs1, fold ?mx cs1 cn)
        = Inr (cell_tab', (ps @ map ?task cs1) @ map ?task cs2, fold ?mx cs2 (fold ?mx cs1 cn))"
      "concat [head] @ concat rest = X2 @ concat cell_tab'"
      "distinct cs2" "set cs2 = cell_id ` set X2"
      "cell_id ` set ((F @ T) @ X2) \<inter> cell_id ` set (concat cell_tab') = {}"
      "cell_tab' \<noteq> []"
      by auto
    have res: "read_chunks cfg w bl ?hc (C # rest) (cell_tab, ps, cn)
        = Inr (cell_tab', ps @ map ?task (cs1 @ cs2), fold ?mx (cs1 @ cs2) cn)"
      using step r(1) by simp
    have cat: "concat cell_tab @ concat (C # rest) = (T @ X2) @ concat cell_tab'"
    proof -
      have "concat (C # rest) = tails @ head @ concat rest"
        using arg_cong[OF C, of "\<lambda>z. concat (z # rest)"] by simp
      then have "concat cell_tab @ concat (C # rest) = T @ (concat [head] @ concat rest)"
        unfolding T_def by simp
      with r(2) show ?thesis by simp
    qed
    have X2sub: "set X2 \<subseteq> set (head @ Q)"
    proof -
      have "set (head @ Q) = set (X2 @ concat cell_tab')" using r(2) by (simp add: Q_def)
      then show ?thesis by auto
    qed
    have dis: "distinct (cs1 @ cs2)"
    proof -
      have "set cs1 = cell_id ` set T" by (simp add: cs1_def)
      moreover have "set cs2 \<subseteq> cell_id ` set (head @ Q)" using r(4) X2sub by blast
      ultimately have "set cs1 \<inter> set cs2 = {}" using K3 by blast
      with r(3) show ?thesis by (simp add: cs1_def)
    qed
    have sets: "set (cs1 @ cs2) = cell_id ` set (T @ X2)"
      using r(4) by (simp add: cs1_def image_Un)
    have fin: "cell_id ` set (F @ T @ X2) \<inter> cell_id ` set (concat cell_tab') = {}"
      using r(5) by simp
    from res cat dis sets fin r(6) show ?thesis by blast
  qed
qed

lemma chunks_of_props:
  "0 < k \<Longrightarrow> concat (chunks_of k xs) = xs \<and> (\<forall>ch\<in>set (chunks_of k xs). ch \<noteq> [])"
proof (induction k xs rule: chunks_of.induct)
  case (1 n xs)
  show ?case
  proof (cases "xs = []")
    case True
    then show ?thesis by (simp add: chunks_of.simps)
  next
    case False
    with 1 have "concat (chunks_of n (drop n xs)) = drop n xs \<and> (\<forall>ch\<in>set (chunks_of n (drop n xs)). ch \<noteq> [])"
      by simp
    moreover have "chunks_of n xs = take n xs # chunks_of n (drop n xs)"
      using False "1.prems" by (subst chunks_of.simps) simp
    moreover have "take n xs \<noteq> []" using False "1.prems" by simp
    ultimately show ?thesis by simp
  qed
qed

lemma reader_props:
  assumes "0 < k" "xs \<noteq> []"
  shows "concat (reader k xs) = xs" "\<forall>ch\<in>set (reader k xs). ch \<noteq> []" "reader k xs \<noteq> []"
proof -
  from assms(2) have r: "reader k xs = chunks_of k xs" by (simp add: reader_def)
  from chunks_of_props[OF assms(1), of xs] show "concat (reader k xs) = xs"
    "\<forall>ch\<in>set (reader k xs). ch \<noteq> []" unfolding r by simp_all
  then show "reader k xs \<noteq> []" using assms(2) by auto
qed

lemma fold_max_bounds:
  "m0 \<le> fold (\<lambda>c m. max m (c + 1)) cs (m0 :: int)
   \<and> (\<forall>c\<in>set cs. c + 1 \<le> fold (\<lambda>c m. max m (c + 1)) cs m0)
   \<and> (fold (\<lambda>c m. max m (c + 1)) cs m0 = m0
       \<or> (\<exists>c\<in>set cs. fold (\<lambda>c m. max m (c + 1)) cs m0 = c + 1))"
proof (induction cs arbitrary: m0)
  case Nil
  show ?case by simp
next
  case (Cons c cs)
  from Cons.IH[of "max m0 (c + 1)"] show ?case by (auto simp: max_def split: if_splits)
qed

lemma fold_max_range:
  assumes "set cs = {0..mx :: int}" "0 \<le> mx"
  shows "fold (\<lambda>c m. max m (c + 1)) cs 0 = mx + 1"
proof -
  let ?r = "fold (\<lambda>c m. max m (c + 1)) cs (0 :: int)"
  note b = fold_max_bounds[of 0 cs]
  from assms have "mx \<in> set cs" by simp
  with b have lo: "mx + 1 \<le> ?r" by blast
  from b have "?r = 0 \<or> (\<exists>c\<in>set cs. ?r = c + 1)" by blast
  then have "?r \<le> mx + 1"
  proof
    assume "?r = 0" with assms(2) show ?thesis by simp
  next
    assume "\<exists>c\<in>set cs. ?r = c + 1"
    then obtain c where "c \<in> set cs" "?r = c + 1" by blast
    with assms(1) show ?thesis by simp
  qed
  with lo show ?thesis by simp
qed

lemma fold_plain_max_bounds:
  "fold max ys (y :: int) \<in> insert y (set ys) \<and> (\<forall>z\<in>insert y (set ys). z \<le> fold max ys y)"
proof (induction ys arbitrary: y)
  case Nil
  show ?case by simp
next
  case (Cons a ys)
  from Cons.IH[of "max a y"] show ?case by (auto simp: max_def split: if_splits)
qed

lemma np_max_range:
  assumes "set xs = {0..mx}" "0 \<le> mx"
  shows "np_max (np_unique xs) = Inr mx"
proof -
  have s: "set (np_unique xs) = {0..mx}" using assms(1) by simp
  have "mx \<in> {0..mx}" using assms(2) by simp
  with s have "mx \<in> set (np_unique xs)" by (simp only:)
  then have "np_unique xs \<noteq> []" by (auto simp del: set_np_unique)
  then obtain y ys where y: "np_unique xs = y # ys" by (cases "np_unique xs") auto
  note b = fold_plain_max_bounds[of ys y]
  from s y have i: "insert y (set ys) = {0..mx}" by simp
  from b have "fold max ys y \<in> {0..mx}" "mx \<le> fold max ys y"
    unfolding i using assms(2) by auto
  then have "fold max ys y = mx" by simp
  then show ?thesis by (simp add: y np_max_def)
qed

lemma cell_task_own:
  assumes "cell_task cfg w bl c = Inr (ml, c')"
  shows "c' = c" "length ml = length (chrom_list cfg)"
proof -
  from assms have d: "data2mtx cfg w (Table (rows_of_cell (data_txt w) c)) (chrom_start_end_npy w) c bl
      = Inr (ml, c')" by (simp add: cell_task_def)
  show "c' = c" by (rule data2mtx_Inr(1)[OF d])
  show "length ml = length (chrom_list cfg)" by (rule build_length[OF data2mtx_Inr(3)[OF d]])
qed

lemma init_shape:
  "length (init_mtx_all_list cfg cell_num) = length (chrom_list cfg)"
  "i < length (chrom_list cfg) \<Longrightarrow> length (init_mtx_all_list cfg cell_num ! i) = nat cell_num"
  by (simp_all add: init_mtx_all_list_def)

lemma aggregate_tasks_filled:
  assumes agg: "aggregate (length (chrom_list cfg)) qs (init_mtx_all_list cfg (mx + 1)) = Inr g"
    and perm: "mset qs = mset (map (cell_task cfg w bl) cids)"
    and cids: "distinct cids" "set cids = {0..mx}"
  shows "g = filled cfg w bl (mx + 1)"
proof -
  let ?n = "length (chrom_list cfg)"
  let ?g0 = "init_mtx_all_list cfg (mx + 1)"
  have nn: "\<forall>c\<in>set cids. 0 \<le> c" using cids(2) by simp
  have own: "\<forall>c\<in>set cids. \<forall>ml c'. cell_task cfg w bl c = Inr (ml, c') \<longrightarrow> c' = c"
    using cell_task_own(1) by blast
  from aggregate_tasks_lengths[OF agg perm nn own]
  have len: "length g = ?n" "\<forall>i<?n. length (g ! i) = nat (mx + 1)"
    by (simp_all add: init_shape)
  show ?thesis
  proof (rule nth_equalityI)
    show "length g = length (filled cfg w bl (mx + 1))" using len(1) by (simp add: filled_def)
    fix i assume "i < length g"
    with len(1) have i: "i < ?n" by simp
    show "g ! i = filled cfg w bl (mx + 1) ! i"
    proof (rule nth_equalityI)
      show "length (g ! i) = length (filled cfg w bl (mx + 1) ! i)"
        using len(2) i by (simp add: filled_def)
      fix j assume "j < length (g ! i)"
      with len(2) i have j: "j < nat (mx + 1)" by simp
      then have jc: "int j \<in> set cids" using cids(2) by auto
      from aggregate_tasks_slot[OF agg perm cids(1) nn own jc i]
      obtain ml where "cell_task cfg w bl (int j) = Inr (ml, int j)" "g ! i ! nat (int j) = Mtx (ml ! i)"
        by blast
      then show "g ! i ! j = filled cfg w bl (mx + 1) ! i ! j"
        using i j by (simp add: filled_def)
    qed
  qed
qed

lemma aggregate_tasks_iff:
  assumes perm: "mset qs = mset (map (cell_task cfg w bl) cids)"
    and cids: "distinct cids" "set cids = {0..mx}"
  shows "aggregate (length (chrom_list cfg)) qs (init_mtx_all_list cfg (mx + 1)) = Inr g
     \<longleftrightarrow> (\<forall>c\<in>{0..mx}. \<exists>r. cell_task cfg w bl c = Inr r) \<and> g = filled cfg w bl (mx + 1)"
proof
  assume agg: "aggregate (length (chrom_list cfg)) qs (init_mtx_all_list cfg (mx + 1)) = Inr g"
  have set_eq: "set qs = cell_task cfg w bl ` set cids" using mset_eq_setD[OF perm] by simp
  have "\<forall>c\<in>{0..mx}. \<exists>r. cell_task cfg w bl c = Inr r"
  proof
    fix c assume "c \<in> {0..mx}"
    with cids(2) set_eq have "cell_task cfg w bl c \<in> set qs" by blast
    with aggregate_Inr_futures[OF agg] show "\<exists>r. cell_task cfg w bl c = Inr r" by auto
  qed
  with aggregate_tasks_filled[OF agg perm cids]
  show "(\<forall>c\<in>{0..mx}. \<exists>r. cell_task cfg w bl c = Inr r) \<and> g = filled cfg w bl (mx + 1)" by simp
next
  assume a: "(\<forall>c\<in>{0..mx}. \<exists>r. cell_task cfg w bl c = Inr r) \<and> g = filled cfg w bl (mx + 1)"
  let ?n = "length (chrom_list cfg)"
  have set_eq: "set qs = cell_task cfg w bl ` set cids" using mset_eq_setD[OF perm] by simp
  have "\<forall>q\<in>set qs. \<exists>r. q = Inr r" using a set_eq cids(2) by auto
  from futures_results[OF this] obtain rs where qs: "qs = map Inr rs" ..
  have rs: "\<forall>r\<in>set rs. 0 \<le> snd r \<and> nat (snd r) < nat (mx + 1) \<and> ?n \<le> length (fst r)"
  proof
    fix r assume "r \<in> set rs"
    then have "Inr r \<in> set qs" unfolding qs by simp
    with set_eq obtain c where c: "c \<in> set cids" "cell_task cfg w bl c = Inr r" by auto
    obtain ml c' where r: "r = (ml, c')" by (cases r)
    from cell_task_own[OF c(2)[unfolded r]] c(1) cids(2) r
    show "0 \<le> snd r \<and> nat (snd r) < nat (mx + 1) \<and> ?n \<le> length (fst r)" by auto
  qed
  have "\<exists>g'. aggregate ?n (map Inr rs) (init_mtx_all_list cfg (mx + 1)) = Inr g'"
    by (rule aggregate_succeeds[OF rs]) (simp_all add: init_shape)
  then obtain g' where g': "aggregate ?n qs (init_mtx_all_list cfg (mx + 1)) = Inr g'"
    unfolding qs ..
  from aggregate_tasks_filled[OF g' perm cids] a g'
  show "aggregate ?n qs (init_mtx_all_list cfg (mx + 1)) = Inr g" by simp
qed

lemma whole_table_eq:
  assumes "cell_id ` set (rows (data_txt w)) = {0..mx}" "0 \<le> mx"
  shows "whole_table cfg w bl =
     (map (cell_task cfg w bl) (map int [0..<nat (mx + 1)]),
      aggregate (length (chrom_list cfg))
        (as_completed w (map (cell_task cfg w bl) (map int [0..<nat (mx + 1)])))
        (init_mtx_all_list cfg (mx + 1)))"
proof -
  have "set (map cell_id (rows (data_txt w))) = {0..mx}" using assms(1) by simp
  from np_max_range[OF this assms(2)]
  show ?thesis by (simp add: whole_table_def Let_def cell_task_def comp_def)
qed

lemma chunked_eq:
  assumes ids: "cell_id ` set (rows (data_txt w)) = {0..mx}" "0 \<le> mx"
    and cont: "contiguous (rows (data_txt w))" and k: "0 < k"
  shows "\<exists>cs. distinct cs \<and> set cs = {0..mx} \<and> chunked k cfg w bl =
     (map (cell_task cfg w bl) cs,
      aggregate (length (chrom_list cfg)) (as_completed w (map (cell_task cfg w bl) cs))
        (init_mtx_all_list cfg (mx + 1)))"
proof -
  let ?R = "rows (data_txt w)"
  let ?task = "cell_task cfg w bl"
  let ?mx = "\<lambda>c (m :: int). max m (c + 1)"
  have "mx \<in> cell_id ` set ?R" using ids by simp
  then have Rne: "?R \<noteq> []" by auto
  note rd = reader_props[OF k Rne]
  have p1: "?R = [] @ concat [] @ concat (reader k ?R)" using rd(1) by simp
  have p2: "contiguous_ids (map cell_id ?R)" using cont by (simp add: contiguous_def)
  have p4: "cell_id ` set [] \<inter> cell_id ` set (concat [] @ concat (reader k ?R)) = {}" by simp
  note inv = read_chunks_inv[OF p1 p2 rd(2) p4, of cfg bl "[]" 0]
  from inv obtain X cell_tab' cs where r:
    "read_chunks cfg w bl (has_count (data_txt w)) (reader k ?R) ([], [], 0)
        = Inr (cell_tab', map ?task cs, fold ?mx cs 0)"
    "?R = X @ concat cell_tab'"
    "distinct cs" "set cs = cell_id ` set X"
    "cell_id ` set X \<inter> cell_id ` set (concat cell_tab') = {}"
    "cell_tab' \<noteq> []"
    using rd(1,3) by auto
  define cs2 where "cs2 = np_unique (map cell_id (concat cell_tab'))"
  have parts: "\<forall>c\<in>cell_id ` set (concat cell_tab').
      filter (\<lambda>r. cell_id r = c) (concat cell_tab') = filter (\<lambda>r. cell_id r = c) ?R"
  proof
    fix c assume "c \<in> cell_id ` set (concat cell_tab')"
    with r(5) have "c \<notin> cell_id ` set X" by blast
    then have "filter (\<lambda>r. cell_id r = c) X = []" by (auto simp: filter_empty_conv)
    moreover have "filter (\<lambda>r. cell_id r = c) ?R
        = filter (\<lambda>r. cell_id r = c) X @ filter (\<lambda>r. cell_id r = c) (concat cell_tab')"
      using arg_cong[OF r(2), of "filter (\<lambda>r. cell_id r = c)"] by simp
    ultimately show "filter (\<lambda>r. cell_id r = c) (concat cell_tab') = filter (\<lambda>r. cell_id r = c) ?R"
      by simp
  qed
  have sub: "submit_cells cfg w bl (has_count (data_txt w)) (concat cell_tab') (map ?task cs, fold ?mx cs 0)
      = (map ?task cs @ map ?task cs2, fold ?mx cs2 (fold ?mx cs 0))"
    unfolding cs2_def by (rule submit_cells_tasks[OF parts])
  have d: "distinct (cs @ cs2)" using r(3,4,5) by (auto simp: cs2_def)
  have s: "set (cs @ cs2) = {0..mx}"
  proof -
    have "set (cs @ cs2) = cell_id ` set X \<union> cell_id ` set (concat cell_tab')"
      using r(4) by (simp add: cs2_def)
    also have "\<dots> = cell_id ` set ?R"
      using arg_cong[OF r(2), of "\<lambda>z. cell_id ` set z"] by (simp add: image_Un)
    finally show ?thesis using ids(1) by simp
  qed
  have cn: "fold ?mx cs2 (fold ?mx cs 0) = mx + 1"
    using fold_max_range[OF s ids(2)] by simp
  have "chunked k cfg w bl =
     (map ?task (cs @ cs2),
      aggregate (length (chrom_list cfg)) (as_completed w (map ?task (cs @ cs2)))
        (init_mtx_all_list cfg (mx + 1)))"
    using r(1,6) sub cn by (simp add: chunked_def Let_def)
  with d s show ?thesis by blast
qed

text \<open>
  On a table whose cell ids are contiguous and are exactly \<open>0, \<dots>, mx\<close>, and with a pool
  that hands back every future once, the chunked layout (for any chunk size) and the
  whole-table layout end with the same \<open>mtx_all_list\<close> whenever one of them ends without an
  exception.
\<close>

lemma layouts_agree:
  assumes ids: "cell_id ` set (rows (data_txt w)) = {0..mx}" "0 \<le> mx"
    and cont: "contiguous (rows (data_txt w))" and k: "0 < k"
    and perm: "\<forall>ps. mset (as_completed w ps) = mset ps"
  shows "snd (chunked k cfg w bl) = Inr g \<longleftrightarrow> snd (whole_table cfg w bl) = Inr g"
proof -
  from chunked_eq[OF ids cont k] obtain cs where cs: "distinct cs" "set cs = {0..mx}"
    "chunked k cfg w bl =
     (map (cell_task cfg w bl) cs,
      aggregate (length (chrom_list cfg)) (as_completed w (map (cell_task cfg w bl) cs))
        (init_mtx_all_list cfg (mx + 1)))" by blast
  let ?W = "map int [0..<nat (mx + 1)]"
  have W: "distinct ?W" "set ?W = {0..mx}"
  proof -
    show "distinct ?W" by (simp add: distinct_map inj_on_def)
    show "set ?W = {0..mx}"
    proof (intro set_eqI iffI)
      fix c assume "c \<in> set ?W" then show "c \<in> {0..mx}" by auto
    next
      fix c assume "c \<in> {0..mx}"
      then have "nat c < nat (mx + 1)" "int (nat c) = c" by auto
      then show "c \<in> set ?W" by (metis atLeast0LessThan image_eqI lessThan_iff set_map set_upt)
    qed
  qed
  have p1: "mset (as_completed w (map (cell_task cfg w bl) cs)) = mset (map (cell_task cfg w bl) cs)"
    using perm by blast
  have p2: "mset (as_completed w (map (cell_task cfg w bl) ?W)) = mset (map (cell_task cfg w bl) ?W)"
    using perm by blast
  show ?thesis
    unfolding cs(3) whole_table_eq[OF ids] snd_conv
      aggregate_tasks_iff[OF p1 cs(1,2)] aggregate_tasks_iff[OF p2 W] ..
qed

section \<open>The whole-table layout fills every slot\<close>

lemma whole_table_tasks:
  assumes "np_max (np_unique (map cell_id (rows (data_txt w)))) = Inr mx"
  shows "whole_table cfg w bl =
     (map (cell_task cfg w bl) (map int [0..<nat (mx + 1)]),
      aggregate (length (chrom_list cfg))
        (as_completed w (map (cell_task cfg w bl) (map int [0..<nat (mx + 1)])))
        (init_mtx_all_list cfg (mx + 1)))"
  using assms by (simp add: whole_table_def Let_def cell_task_def comp_def)

lemma range_ids:
  "distinct (map int [0..<nat (mx + 1)])" "set (map int [0..<nat (mx + 1)]) = {0..mx}"
proof -
  show "distinct (map int [0..<nat (mx + 1)])" by (simp add: distinct_map inj_on_def)
  show "set (map int [0..<nat (mx + 1)]) = {0..mx}"
  proof (intro set_eqI iffI)
    fix c assume "c \<in> set (map int [0..<nat (mx + 1)])" then show "c \<in> {0..mx}" by auto
  next
    fix c assume "c \<in> {0..mx}"
    then have "nat c < nat (mx + 1)" "int (nat c) = c" by auto
    then have "nat c \<in> set [0..<nat (mx + 1)]" by simp
    then have "int (nat c) \<in> int ` set [0..<nat (mx + 1)]" by (rule imageI)
    with \<open>int (nat c) = c\<close> show "c \<in> set (map int [0..<nat (mx + 1)])" by (simp only: set_map)
  qed
qed

text \<open>
  The whole-table layout, when it ends without an exception and the pool hands back every
  future once: every slot of every cell id below \<open>cell_num\<close> holds the matrix of the task of
  that cell id, and the matrices of a cell id without rows are zero.
\<close>

lemma whole_table_every_slot:
  assumes run: "whole_table cfg w bl = (ps, Inr g)"
    and perm: "\<forall>ps. mset (as_completed w ps) = mset ps"
  shows "\<exists>mx. np_max (np_unique (map cell_id (rows (data_txt w)))) = Inr mx
     \<and> length g = length (chrom_list cfg)
     \<and> (\<forall>i<length (chrom_list cfg). length (g ! i) = nat (mx + 1)
          \<and> (\<forall>c<nat (mx + 1). \<exists>ml. cell_task cfg w bl (int c) = Inr (ml, int c)
                \<and> g ! i ! c = Mtx (ml ! i)
                \<and> ((\<forall>r\<in>set (rows (data_txt w)). cell_id r \<noteq> int c) \<longrightarrow> all_zero (ml ! i))))"
proof -
  from run obtain mx where mx: "np_max (np_unique (map cell_id (rows (data_txt w)))) = Inr mx"
    by (cases "np_max (np_unique (map cell_id (rows (data_txt w))))") (auto simp: whole_table_def)
  let ?W = "map int [0..<nat (mx + 1)]"
  let ?n = "length (chrom_list cfg)"
  have "(ps, Inr g) = (map (cell_task cfg w bl) ?W,
      aggregate ?n (as_completed w (map (cell_task cfg w bl) ?W)) (init_mtx_all_list cfg (mx + 1)))"
    using run whole_table_tasks[OF mx, of cfg bl] by (simp only:)
  then have agg: "aggregate ?n (as_completed w (map (cell_task cfg w bl) ?W)) (init_mtx_all_list cfg (mx + 1)) = Inr g"
    by (simp only: prod.inject)
  have p: "mset (as_completed w (map (cell_task cfg w bl) ?W)) = mset (map (cell_task cfg w bl) ?W)"
    using perm by blast
  note g = aggregate_tasks_filled[OF agg p range_ids]
  have tasks: "\<forall>c\<in>{0..mx}. \<exists>r. cell_task cfg w bl c = Inr r"
    using aggregate_tasks_iff[OF p range_ids, of g] agg by simp
  have len: "length g = ?n" by (simp add: g filled_def)
  have slot: "length (g ! i) = nat (mx + 1)
          \<and> (\<forall>c<nat (mx + 1). \<exists>ml. cell_task cfg w bl (int c) = Inr (ml, int c)
                \<and> g ! i ! c = Mtx (ml ! i)
                \<and> ((\<forall>r\<in>set (rows (data_txt w)). cell_id r \<noteq> int c) \<longrightarrow> all_zero (ml ! i)))"
    if i: "i < ?n" for i
  proof (intro conjI allI impI)
    show "length (g ! i) = nat (mx + 1)" using i by (simp add: g filled_def)
    fix c assume c: "c < nat (mx + 1)"
    then have "int c \<in> {0..mx}" by auto
    with tasks obtain r where r: "cell_task cfg w bl (int c) = Inr r" by blast
    obtain ml c' where rr: "r = (ml, c')" by (cases r)
    from cell_task_own(1)[OF r[unfolded rr]] r rr
    have t: "cell_task cfg w bl (int c) = Inr (ml, int c)" by simp
    have gi: "g ! i ! c = Mtx (ml ! i)" using i c t by (simp add: g filled_def)
    have z: "(\<forall>r\<in>set (rows (data_txt w)). cell_id r \<noteq> int c) \<longrightarrow> all_zero (ml ! i)"
    proof
      assume "\<forall>r\<in>set (rows (data_txt w)). cell_id r \<noteq> int c"
      then have e: "rows (rows_of_cell (data_txt w) (int c)) = []"
        by (simp add: rows_of_cell_def filter_empty_conv)
      have s: "surviving w (Table (rows_of_cell (data_txt w) (int c))) bl = []"
        by (simp add: surviving_def load_tab_def e)
      from t have d: "data2mtx cfg w (Table (rows_of_cell (data_txt w) (int c)))
            (chrom_start_end_npy w) (int c) bl = Inr (ml, int c)" by (simp add: cell_task_def)
      show "all_zero (ml ! i)" by (rule data2mtx_zero[OF d i]) (simp add: s)
    qed
    from t gi z show "\<exists>ml. cell_task cfg w bl (int c) = Inr (ml, int c)
                \<and> g ! i ! c = Mtx (ml ! i)
                \<and> ((\<forall>r\<in>set (rows (data_txt w)). cell_id r \<noteq> int c) \<longrightarrow> all_zero (ml ! i))" by blast
  qed
  from mx len slot show ?thesis by blast
qed

section \<open>The two layouts in \<open>extract_table\<close>\<close>

lemma data2mtx_structured:
  "data2mtx (cfg\<lparr>structured := s\<rparr>) w file cse cid bl = data2mtx cfg w file cse cid bl"
  by (simp add: data2mtx_def Let_def cong: sum.case_cong if_cong)

lemma submit_cells_structured:
  "submit_cells (cfg\<lparr>structured := s\<rparr>) w bl hc tab st = submit_cells cfg w bl hc tab st"
  by (simp add: submit_cells_def data2mtx_structured)

lemma read_chunks_structured:
  "read_chunks (cfg\<lparr>structured := s\<rparr>) w bl hc chunks st = read_chunks cfg w bl hc chunks st"
proof (induction chunks arbitrary: st)
  case Nil
  show ?case by simp
next
  case (Cons chunk chunks)
  obtain cell_tab ps cell_num where st: "st = (cell_tab, ps, cell_num)" by (cases st) auto
  show ?case unfolding st by (simp add: Cons.IH submit_cells_structured Let_def split: prod.splits)
qed

lemma layouts_structured:
  "whole_table (cfg\<lparr>structured := s\<rparr>) w bl = whole_table cfg w bl"
  "chunked n (cfg\<lparr>structured := s\<rparr>) w bl = chunked n cfg w bl"
  "save_all (cfg\<lparr>structured := s\<rparr>) r = save_all cfg r"
  by (simp_all add: whole_table_def chunked_def save_all_def init_mtx_all_list_def
       data2mtx_structured submit_cells_structured read_chunks_structured Let_def
       cong: sum.case_cong if_cong prod.case_cong)

lemma outcome_save_all:
  "outcome (save_all cfg r) = Inr fs \<longleftrightarrow>
     (\<exists>g. snd r = Inr g \<and>
          fs = map (\<lambda>i. ([temp_dir cfg, ''raw'', chrom_list cfg ! i @ ''_sparse_adj.npy''], g ! i))
                   [0..<length (chrom_list cfg)])"
  by (cases "snd r") (auto simp: save_all_def)

text \<open>The same for the files \<open>extract_table\<close> writes with \<open>structured\<close> true and false.\<close>

lemma extract_table_layouts_agree:
  assumes ids: "cell_id ` set (rows (data_txt w)) = {0..mx}" "0 \<le> mx"
    and cont: "contiguous (rows (data_txt w))"
    and perm: "\<forall>ps. mset (as_completed w ps) = mset ps"
    and fmt: "input_format cfg = None \<or> input_format cfg = Some ''higashi_v1''"
  shows "outcome (extract_table (cfg\<lparr>structured := Some True\<rparr>) w) = Inr fs
     \<longleftrightarrow> outcome (extract_table (cfg\<lparr>structured := Some False\<rparr>) w) = Inr fs"
proof -
  define bl where "bl = (case blacklist cfg of Some b \<Rightarrow> b | None \<Rightarrow> [])"
  have k: "0 < chunksize" by (simp add: chunksize_def)
  have t: "extract_table (cfg\<lparr>structured := Some True\<rparr>) w = save_all cfg (chunked chunksize cfg w bl)"
    using fmt by (auto simp: extract_table_def layouts_structured bl_def)
  have f: "extract_table (cfg\<lparr>structured := Some False\<rparr>) w = save_all cfg (whole_table cfg w bl)"
    using fmt by (auto simp: extract_table_def layouts_structured bl_def)
  show ?thesis
    unfolding t f outcome_save_all layouts_agree[OF ids cont k perm] ..
qed

section \<open>The claims\<close>

text \<open>Claim C1 (the chunked and the whole-table layout give the same result on a table with
  contiguous cell ids, also for a cell id without rows): the code does not do this. On the
  table \<open>gap_tab\<close>, whose cell ids 0 and 2 are contiguous and whose cell id 1 has no row,
  the chunked layout and the whole-table layout save different arrays.\<close>

theorem chunked_differs_from_whole_table:
  "contiguous (rows gap_tab)
   \<and> outcome (extract_table (ex_cfg\<lparr>structured := Some True\<rparr>) (ex_world gap_tab))
     \<noteq> outcome (extract_table (ex_cfg\<lparr>structured := Some False\<rparr>) (ex_world gap_tab))"
  by (simp add: extract_table_def whole_table_def chunked_def chunksize_def reader_def chunks_of.simps
      submit_cells_def np_unique_def np_max_def save_all_def init_mtx_all_list_def data2mtx_def load_tab_def
      rows_of_cell_def keep_contact_def binned_def csr_matrix_def csr_add_def transpose_csr_def list_set_def
      contiguous_def ex_defs gap_tab_def Let_def numeral_3_eq_3)

text \<open>Claim C2 (every cell id below the cell count has a matrix in every array, in every
  layout): on \<open>gap_tab\<close> the chunked layout saves, for both chromosomes, the integer \<open>0\<close>
  at cell id 1; the whole-table layout saves a matrix there.\<close>

theorem chunked_leaves_placeholder:
  "map_sum id (map (\<lambda>(f, xs). map is_matrix xs))
      (outcome (extract_table (ex_cfg\<lparr>structured := Some True\<rparr>) (ex_world gap_tab)))
     = Inr [[True, False, True], [True, False, True]]
   \<and> map_sum id (map (\<lambda>(f, xs). map is_matrix xs))
      (outcome (extract_table (ex_cfg\<lparr>structured := Some False\<rparr>) (ex_world gap_tab)))
     = Inr [[True, True, True], [True, True, True]]"
  by (simp add: extract_table_def whole_table_def chunked_def chunksize_def reader_def chunks_of.simps
      submit_cells_def np_unique_def np_max_def save_all_def init_mtx_all_list_def data2mtx_def load_tab_def
      rows_of_cell_def keep_contact_def binned_def csr_matrix_def csr_add_def transpose_csr_def list_set_def
      is_matrix_def ex_defs gap_tab_def Let_def numeral_3_eq_3)




text \<open>Claim C5: the list \<open>data2mtx\<close> returns has one matrix per configured chromosome, in
  the order of the list; each is square, of the dimension \<open>end - start\<close> of its window, and
  symmetric; a chromosome on which the cell has no surviving row gets the zero matrix.\<close>

theorem data2mtx_shape:
  assumes "data2mtx cfg w file cse cid bl = Inr (m1_list, c)"
  shows "c = cid \<and> length m1_list = length (chrom_list cfg) \<and>
     (\<forall>k<length (chrom_list cfg).
        nrows (m1_list ! k) = ncols (m1_list ! k) \<and>
        int (nrows (m1_list ! k)) = snd (cse ! k) - fst (cse ! k) \<and>
        symmetric (m1_list ! k) \<and>
        ((\<forall>r\<in>set (surviving w file bl). chrom1 r \<noteq> chrom_list cfg ! k) \<longrightarrow> all_zero (m1_list ! k)))"
proof (intro conjI allI impI)
  show "c = cid" by (rule data2mtx_Inr(1)[OF assms])
  show "length m1_list = length (chrom_list cfg)"
    by (rule build_length[OF data2mtx_Inr(3)[OF assms]])
  fix k assume k: "k < length (chrom_list cfg)"
  note e = data2mtx_entry[OF assms k]
  show "nrows (m1_list ! k) = ncols (m1_list ! k)" using e(2,3) by simp
  show "int (nrows (m1_list ! k)) = snd (cse ! k) - fst (cse ! k)" using e(1,2) by simp
  show "symmetric (m1_list ! k)" unfolding symmetric_def using e(2,3) e(4) by simp
  assume "\<forall>r\<in>set (surviving w file bl). chrom1 r \<noteq> chrom_list cfg ! k"
  with assms k show "all_zero (m1_list ! k)" by (rule data2mtx_zero)
qed

theorem data2mtx_shape_witness:
  "\<exists>m1_list. data2mtx ex_cfg (ex_world ex_tab) (Table ex_tab) [(0, 10), (10, 15)] 0 [] = Inr (m1_list, 0)
     \<and> length m1_list = 2
     \<and> nrows (m1_list ! 0) = 10 \<and> ncols (m1_list ! 0) = 10 \<and> symmetric (m1_list ! 0)
     \<and> nrows (m1_list ! 1) = 5 \<and> ncols (m1_list ! 1) = 5 \<and> symmetric (m1_list ! 1)
     \<and> all_zero (m1_list ! 1)"
proof -
  from ex_returns obtain m1_list where
    r: "data2mtx ex_cfg (ex_world ex_tab) (Table ex_tab) [(0, 10), (10, 15)] 0 [] = Inr (m1_list, 0)" ..
  note s = data2mtx_shape[OF r, unfolded ex_surviving]
  from s have l: "length m1_list = 2" by (simp add: ex_cfg_def)
  have k0: "nrows (m1_list ! 0) = 10 \<and> ncols (m1_list ! 0) = 10 \<and> symmetric (m1_list ! 0)"
    using s[THEN conjunct2, THEN conjunct2, THEN spec, of 0] by (simp add: ex_cfg_def)
  have k1: "nrows (m1_list ! 1) = 5 \<and> ncols (m1_list ! 1) = 5 \<and> symmetric (m1_list ! 1)
      \<and> all_zero (m1_list ! 1)"
    using s[THEN conjunct2, THEN conjunct2, THEN spec, of 1]
    by (simp add: ex_cfg_def ex_tab_def ex_row_def)
  with r l k0 show ?thesis by blast
qed




text \<open>Claim C7: when every cell id below the cell count occurs exactly once among the
  completed results, the aggregation loop gives the same \<open>mtx_all_list\<close> (or raises the
  same exception) for every order of completion.\<close>

theorem aggregate_order_independent:
  assumes "mset done' = mset done"
    and "distinct (map snd done)"
    and "set (map snd done) = {0..<int cell_num}"
  shows "aggregate n (map Inr done') mtx_all_list = aggregate n (map Inr done) mtx_all_list"
proof -
  have comm: "agg_step n x \<circ> agg_step n y = agg_step n y \<circ> agg_step n x"
    if "x \<in> set (map Inr done)" "y \<in> set (map Inr done)" for x y
  proof -
    from that obtain ml1 c1 ml2 c2 where x: "x = Inr (ml1, c1)" "(ml1, c1) \<in> set done"
      and y: "y = Inr (ml2, c2)" "(ml2, c2) \<in> set done" by auto
    have nn: "0 \<le> c1" "0 \<le> c2"
      using assms(3) x(2) y(2) by (force simp: set_eq_iff image_iff)+
    show ?thesis
    proof (cases "x = y")
      case True
      then show ?thesis by simp
    next
      case False
      with x y have "(ml1, c1) \<noteq> (ml2, c2)" by auto
      with assms(2) x(2) y(2) have "c1 \<noteq> c2"
        by (metis distinct_map inj_onD prod.collapse fst_conv snd_conv)
      from agg_step_commute[OF nn this] show ?thesis unfolding x y by (intro ext) simp
    qed
  qed
  have "mset (map Inr done) = mset (map Inr done' :: future list)" using assms(1) by simp
  from fold_multiset_equiv[OF comm this]
  show ?thesis by (simp add: aggregate_fold)
qed

theorem aggregate_order_independent_witness:
  "mset [([ex_m 2], 1), ([ex_m 1], 0)] = mset [([ex_m 1], 0), ([ex_m 2], 1 :: int)]
   \<and> distinct (map snd [([ex_m 1], 0), ([ex_m 2], 1 :: int)])
   \<and> set (map snd [([ex_m 1], 0), ([ex_m 2], 1 :: int)]) = {0..<int 2}
   \<and> aggregate 1 (map Inr [([ex_m 2], 1), ([ex_m 1], 0)]) [[PyInt0, PyInt0]]
     = aggregate 1 (map Inr [([ex_m 1], 0), ([ex_m 2], 1)]) [[PyInt0, PyInt0]]
   \<and> aggregate 1 (map Inr [([ex_m 1], 0), ([ex_m 2], 1)]) [[PyInt0, PyInt0]]
     = Inr [[Mtx (ex_m 1), Mtx (ex_m 2)]]"
proof -
  have a: "mset [([ex_m 2], 1), ([ex_m 1], 0)] = mset [([ex_m 1], 0), ([ex_m 2], 1 :: int)]" by simp
  have b: "distinct (map snd [([ex_m 1], 0), ([ex_m 2], 1 :: int)])" by simp
  have c: "set (map snd [([ex_m 1], 0), ([ex_m 2], 1 :: int)]) = {0..<int 2}" by auto
  have d: "aggregate 1 (map Inr [([ex_m 1], 0), ([ex_m 2], 1)]) [[PyInt0, PyInt0]]
     = Inr [[Mtx (ex_m 1), Mtx (ex_m 2)]]"
    by (simp add: list_set_def)
  from aggregate_order_independent[OF a b c, of 1 "[[PyInt0, PyInt0]]"] a b c d show ?thesis by blast
qed


text \<open>Claim C9: an input format that is neither \<open>higashi_v1\<close> nor \<open>higashi_v2\<close> ends the
  extraction with \<open>EOFError\<close>; no task has been submitted and no file written.\<close>

theorem unknown_format_fatal:
  assumes "input_format cfg = Some fmt" "fmt \<noteq> ''higashi_v1''" "fmt \<noteq> ''higashi_v2''"
  shows "extract_table cfg w = \<lparr>p_list = [], outcome = Inl EOFError\<rparr>"
  using assms by (simp add: extract_table_def)

theorem unknown_format_fatal_witness:
  "input_format (ex_cfg\<lparr>input_format := Some ''cooler''\<rparr>) = Some ''cooler''
   \<and> ''cooler'' \<noteq> ''higashi_v1'' \<and> ''cooler'' \<noteq> ''higashi_v2''
   \<and> extract_table (ex_cfg\<lparr>input_format := Some ''cooler''\<rparr>) (ex_world ex_tab)
       = \<lparr>p_list = [], outcome = Inl EOFError\<rparr>"
  using unknown_format_fatal[of "ex_cfg\<lparr>input_format := Some ''cooler''\<rparr>" "''cooler''" "ex_world ex_tab"]
  by simp


end
